theory Spec2Isabelle
  imports Main "HOL-Library.Word"
begin

unbundle bit_operations_syntax

section \<open>Constants of the system\<close>

text \<open>The signal and error numbers of Linux that the program tests for.\<close>

definition SIGTERM :: int where "SIGTERM = 15"
definition EINTR :: int where "EINTR = 4"
definition ECHILD :: int where "ECHILD = 10"
definition EAGAIN :: int where "EAGAIN = 11"

section \<open>The mount table of pa-jail\<close>

text \<open>
  The flag values of \<^verbatim>\<open><sys/mount.h>\<close> on Linux, which \<^verbatim>\<open>MFLAG(x)\<close> expands to.
  They are system constants; the table \<^verbatim>\<open>mountargs\<close> below is the program's own.
\<close>

definition MS_RDONLY :: int where "MS_RDONLY = 1"
definition MS_NOSUID :: int where "MS_NOSUID = 2"
definition MS_NODEV :: int where "MS_NODEV = 4"
definition MS_NOEXEC :: int where "MS_NOEXEC = 8"
definition MS_REMOUNT :: int where "MS_REMOUNT = 32"
definition MS_NOATIME :: int where "MS_NOATIME = 1024"
definition MS_NODIRATIME :: int where "MS_NODIRATIME = 2048"
definition MS_BIND :: int where "MS_BIND = 4096"
definition MS_REC :: int where "MS_REC = 16384"
definition MS_UNBINDABLE :: int where "MS_UNBINDABLE = 131072"
definition MS_PRIVATE :: int where "MS_PRIVATE = 262144"
definition MS_SLAVE :: int where "MS_SLAVE = 524288"
definition MS_RELATIME :: int where "MS_RELATIME = 2097152"
definition MS_STRICTATIME :: int where "MS_STRICTATIME = 16777216"

lemmas MS_defs = MS_RDONLY_def MS_NOSUID_def MS_NODEV_def MS_NOEXEC_def MS_REMOUNT_def
  MS_NOATIME_def MS_NODIRATIME_def MS_BIND_def MS_REC_def MS_UNBINDABLE_def MS_PRIVATE_def
  MS_SLAVE_def MS_RELATIME_def MS_STRICTATIME_def

text \<open>\<^verbatim>\<open>struct mountarg { const char* name; int value; bool unparse; }\<close>\<close>

record mountarg =
  name :: string
  "value" :: int
  unparse :: bool

definition mountargs :: "mountarg list" where
  "mountargs =
    [\<lparr>name = ''bind'', value = MS_BIND, unparse = False\<rparr>,
     \<lparr>name = ''noatime'', value = MS_NOATIME, unparse = True\<rparr>,
     \<lparr>name = ''nodev'', value = MS_NODEV, unparse = True\<rparr>,
     \<lparr>name = ''nodiratime'', value = MS_NODIRATIME, unparse = True\<rparr>,
     \<lparr>name = ''noexec'', value = MS_NOEXEC, unparse = True\<rparr>,
     \<lparr>name = ''nosuid'', value = MS_NOSUID, unparse = True\<rparr>,
     \<lparr>name = ''private'', value = MS_PRIVATE, unparse = True\<rparr>,
     \<lparr>name = ''rec'', value = MS_REC, unparse = False\<rparr>,
     \<lparr>name = ''relatime'', value = MS_RELATIME, unparse = True\<rparr>,
     \<lparr>name = ''remount'', value = MS_REMOUNT, unparse = True\<rparr>,
     \<lparr>name = ''ro'', value = MS_RDONLY, unparse = True\<rparr>,
     \<lparr>name = ''rw'', value = 0, unparse = True\<rparr>,
     \<lparr>name = ''slave'', value = MS_SLAVE, unparse = True\<rparr>,
     \<lparr>name = ''strictatime'', value = MS_STRICTATIME, unparse = True\<rparr>,
     \<lparr>name = ''unbindable'', value = MS_UNBINDABLE, unparse = True\<rparr>]"

text \<open>
  \<^verbatim>\<open>find_mountarg(name, namelen)\<close>: the first entry whose name has length \<open>namelen\<close> and
  equals the \<open>namelen\<close> bytes at \<open>name\<close>; the model is given those bytes as a string.
\<close>

definition find_mountarg :: "string \<Rightarrow> mountarg option" where
  "find_mountarg key = find (\<lambda>ma. name ma = key) mountargs"

text \<open>A \<^verbatim>\<open>const char*\<close> argument is read up to its first NUL byte.\<close>

definition c_str :: "string \<Rightarrow> string" where
  "c_str s = takeWhile (\<lambda>c. c \<noteq> CHR 0x00) s"

text \<open>\<^verbatim>\<open>strspn(s, ",")\<close>, \<^verbatim>\<open>strcspn(s, ",=")\<close> and \<^verbatim>\<open>strcspn(s, ",")\<close> as predicates on a byte.\<close>

definition is_comma :: "char \<Rightarrow> bool" where
  "is_comma c = (c = CHR '','')"

definition in_key :: "char \<Rightarrow> bool" where
  "in_key c = (c \<noteq> CHR '','' \<and> c \<noteq> CHR ''='')"

definition in_value :: "char \<Rightarrow> bool" where
  "in_value c = (c \<noteq> CHR '','')"

record mountslot =
  fsname :: string
  type :: string
  opts :: "64 word"
  data :: string
  wanted :: bool

lemma option_word_shorter:
  assumes "mopt \<noteq> []"
  shows "length (dropWhile in_value (dropWhile in_key (dropWhile is_comma mopt))) < length mopt"
proof -
  obtain c cs where mopt: "mopt = c # cs"
    using assms by (cases mopt) auto
  have le3: "\<And>P Q R (xs :: string). length (dropWhile P (dropWhile Q (dropWhile R xs))) \<le> length xs"
    by (meson length_dropWhile_le order_trans)
  have le2: "\<And>P Q (xs :: string). length (dropWhile P (dropWhile Q xs)) \<le> length xs"
    by (meson length_dropWhile_le order_trans)
  have "length (dropWhile in_value (dropWhile in_key (dropWhile is_comma (c # cs)))) \<le> length cs"
  proof (cases "c = CHR '',''")
    case True
    then have "dropWhile is_comma (c # cs) = dropWhile is_comma cs"
      by (simp add: is_comma_def)
    then show ?thesis by (simp only: le3)
  next
    case False
    then have a: "dropWhile is_comma (c # cs) = c # cs"
      by (simp add: is_comma_def)
    show ?thesis
    proof (cases "c = CHR ''=''")
      case True
      then have "dropWhile in_value (dropWhile in_key (c # cs)) = dropWhile in_value cs"
        by (simp add: in_key_def in_value_def)
      then show ?thesis by (simp only: a length_dropWhile_le)
    next
      case neq: False
      with False have "dropWhile in_key (c # cs) = dropWhile in_key cs"
        by (simp add: in_key_def)
      then show ?thesis by (simp only: a le2)
    qed
  qed
  then show ?thesis by (simp add: mopt)
qed

text \<open>
  The loop of the constructor \<^verbatim>\<open>mountslot::mountslot(fsname, type, mopt)\<close>: one round takes
  the option word \<open>[ok_first, ok_last)\<close> and its value up to \<open>ov_last\<close>; a recognised word
  is or-ed into \<open>opts\<close>, any other non-empty word is appended to \<open>data\<close>.
\<close>

function mountslot_loop :: "string \<Rightarrow> mountslot \<Rightarrow> mountslot" where
  "mountslot_loop mopt ms =
    (if mopt = [] then ms
     else
       let ok_first = dropWhile is_comma mopt;
           key = takeWhile in_key ok_first;
           ok_last = dropWhile in_key ok_first;
           ov_last = dropWhile in_value ok_last;
           word = key @ takeWhile in_value ok_last
       in case find_mountarg key of
            Some ma \<Rightarrow> mountslot_loop ov_last (ms\<lparr>opts := opts ms OR word_of_int (value ma)\<rparr>)
          | None \<Rightarrow>
              if word \<noteq> []
              then mountslot_loop ov_last
                     (ms\<lparr>data := data ms @ (if data ms = [] then [] else '','') @ word\<rparr>)
              else mountslot_loop ov_last ms)"
  by pat_completeness auto
termination
  by (relation "measure (\<lambda>(mopt, ms). length mopt)") (auto simp: option_word_shorter)

declare mountslot_loop.simps [simp del]

definition mountslot_new :: "string \<Rightarrow> string \<Rightarrow> string option \<Rightarrow> mountslot" where
  "mountslot_new fsname' type' mopt =
     (let ms = \<lparr>fsname = c_str fsname', type = c_str type', opts = 0, data = [], wanted = False\<rparr>
      in case mopt of None \<Rightarrow> ms | Some m \<Rightarrow> mountslot_loop (c_str m) ms)"

text \<open>
  The loop of \<^verbatim>\<open>add_mountopt\<close> that removes from \<open>data\<close> every option with the key of
  \<open>inopt\<close>. \<open>pre\<close> is \<open>data\<close> before \<open>mopt\<close> and \<open>rest\<close> is \<open>data\<close> from \<open>mopt\<close> on. After a
  removal the source continues at \<open>mstart + offset\<close>, where \<open>offset\<close> is the old position
  of \<open>ok_first\<close>: that is \<open>mopt\<close> plus the commas skipped, which lies beyond the
  terminating NUL of the shortened string when fewer bytes than that follow; the model
  returns \<open>None\<close> there (a read outside the string).
\<close>

function remove_mountopt :: "string \<Rightarrow> string \<Rightarrow> string \<Rightarrow> string option" where
  "remove_mountopt inkey pre rest =
    (if rest = [] then Some pre
     else
       let ncomma = length (takeWhile is_comma rest);
           ok_first = dropWhile is_comma rest;
           key = takeWhile in_key ok_first;
           ok_last = dropWhile in_key ok_first;
           ov_last = dropWhile in_value ok_last
       in if key = inkey
          then (if ncomma > length ov_last then None
                else remove_mountopt inkey (pre @ take ncomma ov_last) (drop ncomma ov_last))
          else remove_mountopt inkey (pre @ take (length rest - length ov_last) rest) ov_last)"
  by pat_completeness auto
termination
  by (relation "measure (\<lambda>(inkey, pre, rest). length rest)")
     (auto simp: option_word_shorter intro: le_less_trans [OF diff_le_self])

declare remove_mountopt.simps [simp del]

definition add_mountopt :: "string \<Rightarrow> mountslot \<Rightarrow> mountslot option" where
  "add_mountopt inopt' ms =
    (let inopt = c_str inopt';
         inkey = takeWhile in_key inopt
     in case find_mountarg inkey of
          Some ma \<Rightarrow>
            if value ma \<noteq> 0
            then Some (ms\<lparr>opts := opts ms OR word_of_int (value ma)\<rparr>)
            else Some (ms\<lparr>opts := opts ms AND NOT (word_of_int MS_RDONLY)\<rparr>)
        | None \<Rightarrow>
            (case remove_mountopt inkey [] (data ms) of
               None \<Rightarrow> None
             | Some d \<Rightarrow> Some (ms\<lparr>data := d @ (if d = [] then [] else '','') @ inopt\<rparr>)))"

text \<open>
  \<^verbatim>\<open>static int mount_status\<close> (0: add, 1: run pre-fork, 2: in child) and
  \<^verbatim>\<open>static std::vector<std::string> delayed_mounts\<close>.
\<close>

record mount_state =
  mount_status :: int
  delayed_mounts :: "string list"

definition mountable :: "mountslot \<Rightarrow> string \<Rightarrow> string \<Rightarrow> mount_state \<Rightarrow> bool \<times> mount_state" where
  "mountable ms src dst st =
    (if (src = ''/proc'' \<and> type ms = ''proc'') \<or> (src = ''/dev/pts'' \<and> type ms = ''devpts'')
     then (mount_status st = 2, st)
     else if src = ''/tmp'' \<and> type ms = ''tmpfs'' then (mount_status st \<noteq> 1, st)
     else if src = ''/run'' \<and> type ms = ''tmpfs'' then (False, st)
     else if (src = ''/sys'' \<and> type ms = ''sysfs'') \<or> (src = ''/dev'' \<and> type ms = ''udev'')
             \<or> wanted ms
     then (if mount_status st = 1
           then (False, st\<lparr>delayed_mounts := delayed_mounts st @ [src, dst]\<rparr>)
           else (True, st))
     else (False, st))"


section \<open>Path and shell utilities\<close>

text \<open>
  \<^verbatim>\<open>isalnum\<close> and \<^verbatim>\<open>isspace\<close> of the C library in the \<^verbatim>\<open>"C"\<close> locale (the program never calls
  \<^verbatim>\<open>setlocale\<close>), on a byte.
\<close>

definition isalnum :: "char \<Rightarrow> bool" where
  "isalnum c =
    (let n = (of_char c :: nat)
     in (48 \<le> n \<and> n \<le> 57) \<or> (65 \<le> n \<and> n \<le> 90) \<or> (97 \<le> n \<and> n \<le> 122))"

definition isspace :: "char \<Rightarrow> bool" where
  "isspace c = (let n = (of_char c :: nat) in n = 32 \<or> (9 \<le> n \<and> n \<le> 13))"

text \<open>The single quote and the backslash, which a string literal cannot hold.\<close>

abbreviation squote :: char where "squote \<equiv> CHR 0x27"
abbreviation backslash :: char where "backslash \<equiv> CHR 0x5C"

text \<open>\<^verbatim>\<open>std::string::substr(pos, n)\<close> for \<open>pos\<close> within the string.\<close>

definition substr :: "string \<Rightarrow> nat \<Rightarrow> nat \<Rightarrow> string" where
  "substr s pos n = take n (drop pos s)"

text \<open>
  The condition under which \<^verbatim>\<open>shell_quote\<close> decides to quote: a leading tilde, or a byte
  that is not alphanumeric and none of \<^verbatim>\<open>_ - ~ . /\<close>.
\<close>

definition needs_quote :: "nat \<Rightarrow> char \<Rightarrow> bool" where
  "needs_quote pos c =
    ((pos = 0 \<and> c = CHR ''~'')
     \<or> \<not> (isalnum c \<or> c = CHR ''_'' \<or> c = CHR ''-'' \<or> c = CHR ''~'' \<or> c = CHR ''.''
          \<or> c = CHR ''/''))"

text \<open>
  The \<^verbatim>\<open>for\<close> loop of \<^verbatim>\<open>shell_quote\<close>: \<open>pos\<close> is the index of the byte \<open>c\<close> at the head of
  the remaining bytes, \<open>quoted\<close> and \<open>last_pos\<close> are the variables \<^verbatim>\<open>quoted\<close> and \<^verbatim>\<open>last\<close> of the source.
\<close>

fun shell_quote_loop :: "string \<Rightarrow> nat \<Rightarrow> string \<Rightarrow> string \<Rightarrow> nat \<Rightarrow> string \<times> nat" where
  "shell_quote_loop argument pos [] quoted last_pos = (quoted, last_pos)"
| "shell_quote_loop argument pos (c # cs) quoted last_pos =
    (if needs_quote pos c
     then
       let quoted1 = (if quoted = [] then [squote] else quoted)
       in if c = squote
          then shell_quote_loop argument (Suc pos) cs
                 (quoted1 @ substr argument last_pos (pos - last_pos) @ [squote, backslash, squote, squote])
                 (pos + 1)
          else shell_quote_loop argument (Suc pos) cs quoted1 last_pos
     else shell_quote_loop argument (Suc pos) cs quoted last_pos)"

definition shell_quote :: "string \<Rightarrow> string" where
  "shell_quote argument =
    (case shell_quote_loop argument 0 argument [] 0 of
       (quoted, last_pos) \<Rightarrow>
         if quoted = [] then argument else quoted @ drop last_pos argument @ [squote])"

text \<open>
  The command built by \<^verbatim>\<open>jailownerinfo::exec\<close> from the words \<open>argv\<close> left after the
  \<^verbatim>\<open>NAME=VALUE\<close> arguments (\<open>argc = length argv\<close>), and the argument vector \<^verbatim>\<open>argv_\<close> given to
  \<^verbatim>\<open>execve\<close>. The \<^verbatim>\<open>for\<close> loop runs from \<open>i = 0\<close>.
\<close>

definition exec_command :: "string list \<Rightarrow> string" where
  "exec_command argv =
    (if length argv = 1 then hd argv
     else foldl (\<lambda>command a. command @ '' '' @ shell_quote a) (shell_quote (hd argv)) argv)"

definition exec_argv :: "string \<Rightarrow> string list \<Rightarrow> string list" where
  "exec_argv owner_sh argv =
    [owner_sh, ''-l''] @ (if argv = [] then [] else [''-c'', exec_command argv])"

text \<open>
  How a POSIX shell splits a command line into words (Shell Command Language, 2.2 Quoting
  and 2.6 Word Expansions), for the fragment that \<^verbatim>\<open>shell_quote\<close> produces. The shell is not
  part of the program; this is the model of it that the round trip is stated against.
  Blanks separate words; between single quotes every byte is literal; a backslash outside
  quotes makes the next byte literal (a backslash-newline pair is removed); the bytes of
  \<open>sh_plain\<close> stand for themselves. A word that starts with an unquoted tilde (tilde
  expansion), any other unquoted byte (operators, expansions, patterns, comments) and an
  unterminated quote are outside the fragment: the result is \<open>None\<close>. \<open>cur\<close> is the word
  being collected, \<open>None\<close> between words.
\<close>

definition sh_blank :: "char \<Rightarrow> bool" where
  "sh_blank c = (c = CHR '' '' \<or> c = CHR 0x09 \<or> c = CHR 0x0A)"

definition sh_plain :: "char \<Rightarrow> bool" where
  "sh_plain c =
    (isalnum c \<or> c = CHR ''_'' \<or> c = CHR ''-'' \<or> c = CHR ''~'' \<or> c = CHR ''.''
     \<or> c = CHR ''/'' \<or> c = CHR ''+'' \<or> c = CHR '','' \<or> c = CHR '':'' \<or> c = CHR ''@''
     \<or> c = CHR ''%'')"

definition sh_add :: "string option \<Rightarrow> string \<Rightarrow> string option" where
  "sh_add cur s = Some ((case cur of None \<Rightarrow> [] | Some w \<Rightarrow> w) @ s)"

definition sh_end :: "string option \<Rightarrow> string list \<Rightarrow> string list" where
  "sh_end cur ws = (case cur of None \<Rightarrow> ws | Some w \<Rightarrow> w # ws)"

fun sh_unquoted :: "string option \<Rightarrow> string \<Rightarrow> string list option"
  and sh_squoted :: "string option \<Rightarrow> string \<Rightarrow> string list option" where
  "sh_unquoted cur [] = Some (sh_end cur [])"
| "sh_unquoted cur (c # cs) =
    (if sh_blank c then map_option (sh_end cur) (sh_unquoted None cs)
     else if c = squote then sh_squoted (sh_add cur []) cs
     else if c = backslash
     then (case cs of
             [] \<Rightarrow> None
           | d # ds \<Rightarrow> if d = CHR 0x0A then sh_unquoted cur ds else sh_unquoted (sh_add cur [d]) ds)
     else if c = CHR ''~'' \<and> cur = None then None
     else if sh_plain c then sh_unquoted (sh_add cur [c]) cs
     else None)"
| "sh_squoted cur [] = None"
| "sh_squoted cur (c # cs) =
    (if c = squote then sh_unquoted cur cs else sh_squoted (sh_add cur [c]) cs)"

definition sh_words :: "string \<Rightarrow> string list option" where
  "sh_words line = sh_unquoted None line"

text \<open>
  What \<^verbatim>\<open>shell_quote\<close> writes for one byte between the single quotes it opens: a single
  quote becomes \<^verbatim>\<open>'\''\<close>, any other byte stays. \<open>sq_inv\<close> is the invariant of the loop after
  the bytes \<open>pre\<close> have been seen.
\<close>

definition sq_escape :: "char \<Rightarrow> string" where
  "sq_escape c = (if c = squote then [squote, backslash, squote, squote] else [c])"

definition sq_inv :: "string \<Rightarrow> string \<Rightarrow> nat \<Rightarrow> bool" where
  "sq_inv pre quoted l \<longleftrightarrow>
     l \<le> length pre \<and> squote \<notin> set (drop l pre) \<and>
     (if \<exists>i<length pre. needs_quote i (pre ! i)
      then quoted = squote # concat (map sq_escape (take l pre))
      else quoted = [] \<and> l = 0)"

subsection \<open>File names\<close>

text \<open>
  The bytes of \<^verbatim>\<open>allowed_chars\<close> in \<^verbatim>\<open>check_filename\<close>. \<^verbatim>\<open>strspn(name.c_str(), allowed_chars)\<close>
  is the length of the longest beginning of \<open>name\<close> made of them (the NUL that ends the C
  string is not among them).
\<close>

definition allowed_chars :: string where
  "allowed_chars = ''/0123456789-._ABCDEFGHIJKLMNOPQRSTUVWXYZabcdefghijklmnopqrstuvwxyz~''"

definition allowed_char :: "char \<Rightarrow> bool" where
  "allowed_char c = (c \<in> set allowed_chars)"

text \<open>
  The \<^verbatim>\<open>for\<close> loop of \<^verbatim>\<open>check_filename\<close>. \<open>s\<close> are the bytes from the pointer \<^verbatim>\<open>s\<close> to the end
  of the name (the name holds no NUL here, so the end of the list is the terminating NUL),
  \<open>prev\<close> is the byte \<^verbatim>\<open>s[-1]\<close>, \<open>None\<close> when \<^verbatim>\<open>s\<close> is the start of the name, and \<open>out\<close> is what has
  been written to \<^verbatim>\<open>buf\<close>. The loop ends in one of three ways: with the copied bytes; with
  the \<^verbatim>\<open>return std::string()\<close> for a \<^verbatim>\<open>..\<close> component; or, when a \<^verbatim>\<open>.\<close> component preceded
  by a slash ends the name, the \<^verbatim>\<open>++s\<close> of the first branch reaches the NUL and the \<^verbatim>\<open>++s\<close>
  of the \<^verbatim>\<open>for\<close> steps past it, so that the loop test reads a byte behind the string.
\<close>

datatype scan = Copied string | Rejected | Read_past_end

lemma length_dropWhile_less:
  "length (dropWhile P xs) < Suc (length xs)"
  "length (dropWhile P xs) < Suc (Suc (length xs))"
  using length_dropWhile_le [of P xs] by simp_all

function check_filename_loop :: "char option \<Rightarrow> string \<Rightarrow> string \<Rightarrow> scan" where
  "check_filename_loop prev s out =
    (case s of
       [] \<Rightarrow> Copied out
     | c # s1 \<Rightarrow>
         if c = CHR ''.'' \<and> (s1 = [] \<or> hd s1 = CHR ''/'') \<and> prev = Some CHR ''/''
         then (case s1 of
                 [] \<Rightarrow> Read_past_end
               | d # s2 \<Rightarrow>
                   check_filename_loop (Some CHR ''/'') (dropWhile (\<lambda>x. x = CHR ''/'') s2) out)
         else if c = CHR ''.'' \<and> s1 \<noteq> [] \<and> hd s1 = CHR ''.''
                 \<and> (tl s1 = [] \<or> hd (tl s1) = CHR ''/'')
                 \<and> (prev = None \<or> prev = Some CHR ''/'')
         then Rejected
         else if c = CHR ''/''
         then check_filename_loop (Some CHR ''/'') (dropWhile (\<lambda>x. x = CHR ''/'') s1) (out @ [c])
         else check_filename_loop (Some c) s1 (out @ [c]))"
  by pat_completeness auto
termination
  by (relation "measure (\<lambda>(prev, s, out). length s)") (auto simp: length_dropWhile_less)

declare check_filename_loop.simps [simp del]

text \<open>The loop \<^verbatim>\<open>while (out > buf + 1 && out[-1] == '/') --out;\<close>\<close>

function strip_slashes :: "string \<Rightarrow> string" where
  "strip_slashes out =
    (if length out > 1 \<and> last out = CHR ''/'' then strip_slashes (butlast out) else out)"
  by pat_completeness auto
termination
  by (relation "measure length") auto

declare strip_slashes.simps [simp del]

text \<open>
  \<^verbatim>\<open>check_filename(name)\<close>. The result \<open>Some []\<close> is the empty string that stands for a
  refused name; \<open>None\<close> is the read behind the end of the string, after which the C++
  program has no defined result.
\<close>

definition check_filename :: "string \<Rightarrow> string option" where
  "check_filename name' =
    (if length (takeWhile allowed_char name') \<noteq> length name'
        \<or> name' = [] \<or> hd name' = CHR ''~'' \<or> length name' \<ge> 1024
     then Some []
     else (case check_filename_loop None name' [] of
             Copied out \<Rightarrow> Some (strip_slashes out)
           | Rejected \<Rightarrow> Some []
           | Read_past_end \<Rightarrow> None))"

text \<open>
  The words of the specification. The allowlist as the specification gives it, with
  the space. The components of a name are the parts between its slashes (a name that
  starts or ends with a slash, or holds two in a row, has empty components).
  \<open>collapse\<close> keeps the first component, drops every later component that is empty or
  \<^verbatim>\<open>.\<close> and joins what is left with single slashes, behind the leading slash of an
  absolute name.
\<close>

definition spec_allowed_char :: "char \<Rightarrow> bool" where
  "spec_allowed_char c = (allowed_char c \<or> c = CHR '' '')"

fun components :: "string \<Rightarrow> string list" where
  "components [] = [[]]"
| "components (c # cs) =
    (if c = CHR ''/'' then [] # components cs
     else (case components cs of [] \<Rightarrow> [[c]] | w # ws \<Rightarrow> (c # w) # ws))"

fun join_slash :: "string list \<Rightarrow> string" where
  "join_slash [] = []"
| "join_slash [w] = w"
| "join_slash (w # ws) = w @ ''/'' @ join_slash ws"

definition kept :: "string list \<Rightarrow> string list" where
  "kept ws = filter (\<lambda>w. w \<noteq> [] \<and> w \<noteq> ''.'') ws"

definition has_dotdot :: "string \<Rightarrow> bool" where
  "has_dotdot name' = (''..'' \<in> set (components name'))"

definition ends_in_dot :: "string \<Rightarrow> bool" where
  "ends_in_dot name' = (length (components name') > 1 \<and> last (components name') = ''.'')"

definition collapse :: "string \<Rightarrow> string" where
  "collapse name' =
    (let first = hd (components name');
         later = kept (tl (components name'))
     in (if first = [] then ''/'' @ join_slash later else join_slash (first # later)))"

text \<open>
  What the loop makes of the components that follow a slash: \<open>after_slash\<close> for the
  components from the one that starts behind the slash, \<open>follow\<close> for those behind a
  component that has been copied; \<open>prepend\<close> puts copied bytes in front of a result.
\<close>

definition prepend :: "string \<Rightarrow> scan \<Rightarrow> scan" where
  "prepend x r = (case r of Copied y \<Rightarrow> Copied (x @ y) | Rejected \<Rightarrow> Rejected
                  | Read_past_end \<Rightarrow> Read_past_end)"

fun after_slash :: "string list \<Rightarrow> scan" where
  "after_slash [] = Copied []"
| "after_slash (w # ws) =
    (if w = [] then after_slash ws
     else if w = ''.'' then (if ws = [] then Read_past_end else after_slash ws)
     else if w = ''..'' then Rejected
     else prepend w (if ws = [] then Copied [] else prepend ''/'' (after_slash ws)))"

definition follow :: "string list \<Rightarrow> scan" where
  "follow ws = (if ws = [] then Copied [] else prepend ''/'' (after_slash ws))"

section \<open>The policy file \<^verbatim>\<open>/etc/pa-jail.conf\<close>\<close>

subsection \<open>Reading the file\<close>

text \<open>
  What \<^verbatim>\<open>fstat\<close> reports of the file, as far as \<^verbatim>\<open>writable_only_by_root\<close> looks at it.
  \<^verbatim>\<open>ROOT\<close> is 0; \<^verbatim>\<open>S_IWGRP\<close> is octal 020 and \<^verbatim>\<open>S_IWOTH\<close> is octal 002.
\<close>

record stat =
  st_uid :: nat
  st_gid :: nat
  st_mode :: "32 word"

definition ROOT :: nat where "ROOT = 0"
definition S_IWGRP :: "32 word" where "S_IWGRP = 16"
definition S_IWOTH :: "32 word" where "S_IWOTH = 2"

definition writable_only_by_root :: "stat \<Rightarrow> bool" where
  "writable_only_by_root st =
    (st_uid st = ROOT
     \<and> (st_gid st = ROOT \<or> st_mode st AND S_IWGRP = 0)
     \<and> st_mode st AND S_IWOTH = 0)"

text \<open>
  The file as the constructor meets it: \<open>None\<close> for \<open>file_stat\<close> is a failing \<^verbatim>\<open>fstat\<close>,
  \<open>None\<close> for \<open>file_bytes\<close> a failing \<^verbatim>\<open>read\<close>; a file that cannot be opened is \<open>None\<close>
  altogether. \<^verbatim>\<open>read(fd, buf_, sizeof(buf_))\<close> on the freshly opened file returns its first
  \<^verbatim>\<open>sizeof(buf_)\<close> bytes, or all of them if there are fewer.
\<close>

record conf_file =
  file_stat :: "stat option"
  file_bytes :: "string option"

datatype conf_error =
  OpenFailed | FstatFailed | WritableByNonRoot | ReadFailed | EmptyFile | TooBig nat

definition sizeof_buf :: nat where "sizeof_buf = 8192"

text \<open>
  \<^verbatim>\<open>pajailconf::pajailconf()\<close>: every \<^verbatim>\<open>die\<close> is an error value; on success the result
  is the content \<^verbatim>\<open>buf_[0 .. len_)\<close>.
\<close>

definition pajailconf_new :: "conf_file option \<Rightarrow> conf_error + string" where
  "pajailconf_new opened =
    (case opened of
       None \<Rightarrow> Inl OpenFailed
     | Some f \<Rightarrow>
         (case file_stat f of
            None \<Rightarrow> Inl FstatFailed
          | Some st \<Rightarrow>
              if \<not> writable_only_by_root st then Inl WritableByNonRoot
              else
                (case file_bytes f of
                   None \<Rightarrow> Inl ReadFailed
                 | Some bytes \<Rightarrow>
                     let nr = min (length bytes) sizeof_buf
                     in if nr = 0 then Inl EmptyFile
                        else if nr = sizeof_buf then Inl (TooBig sizeof_buf)
                        else Inr (take nr bytes))))"

subsection \<open>Evaluating the rules\<close>

definition path_endslash :: "string \<Rightarrow> string" where
  "path_endslash path = (if path = [] \<or> last path \<noteq> CHR ''/'' then path @ ''/'' else path)"

abbreviation newline :: char where "newline \<equiv> CHR 0x0A"

text \<open>
  \<^verbatim>\<open>take_word(pos)\<close> on the bytes \<open>rest\<close> from \<open>pos\<close> to \<open>len_\<close>: skips white space other
  than a newline, then takes the bytes up to the next white space. The result is the word
  and the bytes from the new \<open>pos\<close> on.
\<close>

definition take_word :: "string \<Rightarrow> string \<times> string" where
  "take_word rest =
    (let a = dropWhile (\<lambda>c. c \<noteq> newline \<and> isspace c) rest
     in (takeWhile (\<lambda>c. \<not> isspace c) a, dropWhile (\<lambda>c. \<not> isspace c) a))"

lemma take_word_le: "length (snd (take_word rest)) \<le> length rest"
  unfolding take_word_def Let_def snd_conv
  by (meson length_dropWhile_le order_trans)

lemma take_word_less:
  assumes "rest \<noteq> []" "hd rest \<noteq> newline"
  shows "length (snd (take_word rest)) < length rest"
proof -
  obtain c cs where rest: "rest = c # cs" using assms(1) by (cases rest) auto
  have c: "c \<noteq> newline" using assms(2) rest by simp
  have le2: "\<And>P Q (xs :: string). length (dropWhile P (dropWhile Q xs)) \<le> length xs"
    by (meson length_dropWhile_le order_trans)
  have "length (snd (take_word (c # cs))) \<le> length cs"
  proof (cases "isspace c")
    case True
    with c have "dropWhile (\<lambda>c. c \<noteq> newline \<and> isspace c) (c # cs) =
        dropWhile (\<lambda>c. c \<noteq> newline \<and> isspace c) cs" by simp
    then show ?thesis unfolding take_word_def Let_def snd_conv by (simp only: le2)
  next
    case False
    then have a: "dropWhile (\<lambda>c. c \<noteq> newline \<and> isspace c) (c # cs) = c # cs" by simp
    from False have "dropWhile (\<lambda>c. \<not> isspace c) (c # cs) = dropWhile (\<lambda>c. \<not> isspace c) cs"
      by simp
    then show ?thesis unfolding take_word_def Let_def snd_conv
      by (simp only: a length_dropWhile_le)
  qed
  then show ?thesis by (simp add: rest)
qed

text \<open>The loop \<^verbatim>\<open>while (pos < len_ && buf_[pos] != '\n') take_word(pos);\<close>\<close>

function skip_words :: "string \<Rightarrow> string" where
  "skip_words rest =
    (if rest \<noteq> [] \<and> hd rest \<noteq> newline then skip_words (snd (take_word rest)) else rest)"
  by pat_completeness auto
termination
  by (relation "measure length") (auto simp: take_word_less)

declare skip_words.simps [simp del]

text \<open>
  One round of the \<^verbatim>\<open>while (pos < len_)\<close> loop of \<^verbatim>\<open>allows_type\<close> up to \<^verbatim>\<open>// check action\<close>:
  the words \<open>action\<close> and \<open>arg\<close>, and the bytes left after the rest of the line and the
  newlines that follow it.
\<close>

definition take_line :: "string \<Rightarrow> string \<times> string \<times> string" where
  "take_line rest =
    (let action = take_word rest;
         arg = take_word (snd action)
     in (fst action, fst arg, dropWhile (\<lambda>c. c = newline) (skip_words (snd arg))))"

lemma skip_words_le: "length (skip_words rest) \<le> length rest"
proof (induction rest rule: skip_words.induct)
  case (1 rest)
  show ?case
  proof (cases "rest \<noteq> [] \<and> hd rest \<noteq> newline")
    case True
    then have "length (skip_words rest) = length (skip_words (snd (take_word rest)))"
      using skip_words.simps [of rest] by simp
    moreover have "length (skip_words (snd (take_word rest))) \<le> length (snd (take_word rest))"
      using 1 True by blast
    ultimately show ?thesis using take_word_le [of rest] by linarith
  next
    case False
    then have "skip_words rest = rest" using skip_words.simps [of rest] by auto
    then show ?thesis by simp
  qed
qed

lemma take_line_less:
  assumes "rest \<noteq> []"
  shows "length (snd (snd (take_line rest))) < length rest"
proof (cases "hd rest = newline")
  case True
  then obtain cs where rest: "rest = newline # cs" using assms by (cases rest) auto
  have "take_word rest = ([], rest)" by (simp add: take_word_def rest isspace_def)
  moreover have "skip_words rest = rest" using skip_words.simps [of rest] by (simp add: rest)
  ultimately have "snd (snd (take_line rest)) = dropWhile (\<lambda>c. c = newline) cs"
    by (simp add: take_line_def rest)
  then show ?thesis using length_dropWhile_le [of "\<lambda>c. c = newline" cs] by (simp add: rest)
next
  case False
  have "length (snd (snd (take_line rest))) \<le> length (skip_words (snd (take_word (snd (take_word rest)))))"
    by (simp add: take_line_def Let_def length_dropWhile_le)
  also have "\<dots> \<le> length (snd (take_word (snd (take_word rest))))" by (rule skip_words_le)
  also have "\<dots> \<le> length (snd (take_word rest))" by (rule take_word_le)
  also have "\<dots> < length rest" using assms False by (rule take_word_less)
  finally show ?thesis .
qed

text \<open>
  \<^verbatim>\<open>check_action(action, prefix, type, typelen)\<close>: the word has the length of
  \<open>prefix\<close> and \<open>type\<close> together, starts with \<open>prefix\<close> and ends with \<open>type\<close>.
\<close>

definition check_action :: "string \<Rightarrow> string \<Rightarrow> string \<Rightarrow> bool" where
  "check_action action prefix type' =
    (length action = length prefix + length type'
     \<and> take (length prefix) action = prefix
     \<and> drop (length action - length type') action = type')"

text \<open>
  The \<^verbatim>\<open>superdir\<close> loop of \<^verbatim>\<open>check_dirmatch\<close>: \<open>prest\<close> is the pattern from \<^verbatim>\<open>patslashpos\<close>
  on, \<open>sdone\<close> and \<open>srest\<close> are \<open>str\<close> before and from \<^verbatim>\<open>strslashpos\<close> on. The result is
  \<open>str\<close> cut after as many slashes as the pattern holds, \<open>None\<close> for the \<^verbatim>\<open>return false\<close>
  when \<open>str\<close> has fewer.
\<close>

function superdir_loop :: "string \<Rightarrow> string \<Rightarrow> string \<Rightarrow> string option" where
  "superdir_loop prest sdone srest =
    (if CHR ''/'' \<notin> set prest then Some sdone
     else if CHR ''/'' \<notin> set srest then None
     else superdir_loop (tl (dropWhile (\<lambda>c. c \<noteq> CHR ''/'') prest))
            (sdone @ takeWhile (\<lambda>c. c \<noteq> CHR ''/'') srest @ ''/'')
            (tl (dropWhile (\<lambda>c. c \<noteq> CHR ''/'') srest)))"
  by pat_completeness auto
termination
proof (relation "measure (\<lambda>(prest, sdone, srest). length prest)", goal_cases)
  case 1
  show ?case by simp
next
  case (2 prest sdone srest)
  then have "dropWhile (\<lambda>c. c \<noteq> CHR ''/'') prest \<noteq> []" by (simp add: dropWhile_eq_Nil_conv)
  then have "length (tl (dropWhile (\<lambda>c. c \<noteq> CHR ''/'') prest))
      < length (dropWhile (\<lambda>c. c \<noteq> CHR ''/'') prest)" by simp
  also have "\<dots> \<le> length prest" by (rule length_dropWhile_le)
  finally show ?case by simp
qed

declare superdir_loop.simps [simp del]

text \<open>
  \<^verbatim>\<open>check_dirmatch(pattern, str, superdir, store_superdir)\<close>. \<^verbatim>\<open>fnmatch\<close> with the flags
  \<^verbatim>\<open>FNM_PATHNAME | FNM_PERIOD\<close> is the C library's: the model takes it as the parameter
  \<open>fnm\<close>, true where \<^verbatim>\<open>fnmatch\<close> returns 0. \<open>superdir_of\<close> is the value stored through
  \<^verbatim>\<open>store_superdir\<close>.
\<close>

definition superdir_of :: "string \<Rightarrow> string \<Rightarrow> string option" where
  "superdir_of pattern str = superdir_loop pattern [] str"

definition check_dirmatch :: "(string \<Rightarrow> string \<Rightarrow> bool) \<Rightarrow> string \<Rightarrow> string \<Rightarrow> bool \<Rightarrow> bool" where
  "check_dirmatch fnm pattern str superdir =
    (if superdir
     then (case superdir_of pattern str of None \<Rightarrow> False | Some s \<Rightarrow> fnm pattern s)
     else fnm pattern str)"

text \<open>
  \<^verbatim>\<open>fnmatch\<close> on a pattern that holds none of the bytes \<^verbatim>\<open>* ? [ \\<close>: the pattern matches
  exactly itself. It stands for \<open>fnm\<close> where a concrete policy is evaluated.
\<close>

definition fnmatch_literal :: "string \<Rightarrow> string \<Rightarrow> bool" where
  "fnmatch_literal pattern str = (pattern = str)"

text \<open>The mutable members of \<^verbatim>\<open>pajailconf\<close> and the two locals of \<^verbatim>\<open>allows_type\<close>.\<close>

record policy_state =
  allowed_globally :: int
  allowed_locally :: int
  allowance_pattern :: string
  treedir :: string

definition set_treedir ::
  "(string \<Rightarrow> string \<Rightarrow> bool) \<Rightarrow> string \<Rightarrow> string \<Rightarrow> bool \<Rightarrow> policy_state \<Rightarrow> policy_state" where
  "set_treedir fnm pattern0 str is_explicit st =
    (let pattern =
           (if \<not> is_explicit \<and> length pattern0 > 3
               \<and> drop (length pattern0 - 3) pattern0 = ''/*/''
            then take (length pattern0 - 2) pattern0 else pattern0)
     in case superdir_of pattern str of
          None \<Rightarrow> st
        | Some superdir \<Rightarrow>
            if fnm pattern superdir \<and> (treedir st = [] \<or> length (treedir st) > length superdir)
            then st\<lparr>treedir := superdir\<rparr> else st)"

text \<open>
  The part of the loop body after \<^verbatim>\<open>// check action\<close>, for one line with the words
  \<open>action\<close> and \<open>arg\<close>; \<open>allowance\<close> is the part that follows once \<open>allowed\<close> is known.
\<close>

definition allowance ::
  "(string \<Rightarrow> string \<Rightarrow> bool) \<Rightarrow> string \<Rightarrow> bool \<Rightarrow> int \<Rightarrow> string \<Rightarrow> policy_state \<Rightarrow> policy_state" where
  "allowance fnm dir superdir allowed arg st =
    (if arg = []
     then st\<lparr>allowed_globally := allowed,
             allowed_locally := (if allowed = 0 then allowed else allowed_locally st),
             allowance_pattern := []\<rparr>
     else if hd arg = CHR ''/''
     then
       let pattern = path_endslash arg
       in if check_dirmatch fnm pattern dir (superdir \<or> allowed \<le> 0)
          then
            let st1 = st\<lparr>allowed_locally := allowed, allowance_pattern := pattern\<rparr>
            in if allowed > 0 then set_treedir fnm pattern dir False st1 else st1
          else st
     else st)"

definition policy_rule ::
  "(string \<Rightarrow> string \<Rightarrow> bool) \<Rightarrow> string \<Rightarrow> string \<Rightarrow> bool \<Rightarrow> string \<Rightarrow> string
     \<Rightarrow> policy_state \<Rightarrow> policy_state" where
  "policy_rule fnm type' dir superdir action arg st =
    (if check_action action ''disable'' type' \<or> check_action action ''no'' type'
     then allowance fnm dir superdir 0 arg st
     else if check_action action ''enable'' type' \<or> check_action action ''allow'' type'
     then allowance fnm dir superdir 1 arg st
     else if check_action action ''treedir'' []
     then (if arg \<noteq> [] \<and> hd arg = CHR ''/''
           then set_treedir fnm (path_endslash arg) dir True st else st)
     else st)"

function allows_loop ::
  "(string \<Rightarrow> string \<Rightarrow> bool) \<Rightarrow> string \<Rightarrow> string \<Rightarrow> bool \<Rightarrow> string \<Rightarrow> policy_state
     \<Rightarrow> policy_state" where
  "allows_loop fnm type' dir superdir rest st =
    (if rest = [] then st
     else allows_loop fnm type' dir superdir (snd (snd (take_line rest)))
            (policy_rule fnm type' dir superdir (fst (take_line rest)) (fst (snd (take_line rest))) st))"
  by pat_completeness auto
termination
  by (relation "measure (\<lambda>(fnm, type', dir, superdir, rest, st). length rest)")
     (auto simp: take_line_less)

declare allows_loop.simps [simp del]

text \<open>
  \<^verbatim>\<open>pajailconf::allows_type(type, dir, superdir)\<close> on the policy text \<open>buf\<close> (that is
  \<^verbatim>\<open>buf_[0 .. len_)\<close>): the returned truth value and the state it leaves behind.
\<close>

definition allows_type ::
  "(string \<Rightarrow> string \<Rightarrow> bool) \<Rightarrow> string \<Rightarrow> string \<Rightarrow> string \<Rightarrow> bool \<Rightarrow> bool \<times> policy_state" where
  "allows_type fnm buf type' dir superdir =
    (let st = allows_loop fnm type' (path_endslash dir) superdir buf
                \<lparr>allowed_globally = - 1, allowed_locally = - 1,
                 allowance_pattern = [], treedir = []\<rparr>
     in (allowed_globally st \<noteq> 0 \<and> allowed_locally st > 0, st))"

definition allow_jail :: "(string \<Rightarrow> string \<Rightarrow> bool) \<Rightarrow> string \<Rightarrow> string \<Rightarrow> bool" where
  "allow_jail fnm buf dir = fst (allows_type fnm buf ''jail'' dir False)"

definition allow_jail_subdir :: "(string \<Rightarrow> string \<Rightarrow> bool) \<Rightarrow> string \<Rightarrow> string \<Rightarrow> bool" where
  "allow_jail_subdir fnm buf dir = fst (allows_type fnm buf ''jail'' dir True)"

definition allow_skeleton :: "(string \<Rightarrow> string \<Rightarrow> bool) \<Rightarrow> string \<Rightarrow> string \<Rightarrow> bool" where
  "allow_skeleton fnm buf dir = fst (allows_type fnm buf ''skeleton'' dir False)"

text \<open>
  The lines of a policy text as the loop reads them: the pairs of \<open>action\<close> and \<open>arg\<close>,
  in order.
\<close>

function policy_lines :: "string \<Rightarrow> (string \<times> string) list" where
  "policy_lines rest =
    (if rest = [] then []
     else (fst (take_line rest), fst (snd (take_line rest))) # policy_lines (snd (snd (take_line rest))))"
  by pat_completeness auto
termination
  by (relation "measure length") (auto simp: take_line_less)

declare policy_lines.simps [simp del]

text \<open>
  The reading of one line that the evaluation rests on. \<open>rule_allowed\<close> is the value of
  \<open>allowed\<close> that the action word gives (\<open>None\<close> for \<^verbatim>\<open>treedir\<close> and for unknown words).
  A line is a global rule if it has no argument. A line bears on the local bit if it is
  a global \<^verbatim>\<open>disable\<close>, or if its argument is an absolute pattern that matches the
  directory (as a leading part of it where \<open>superdir\<close> is set or the rule disables).
  \<open>last_or d xs\<close> is the last element of \<open>xs\<close>, and \<open>d\<close> if there is none.
\<close>

definition rule_allowed :: "string \<Rightarrow> string \<Rightarrow> int option" where
  "rule_allowed type' action =
    (if check_action action ''disable'' type' \<or> check_action action ''no'' type' then Some 0
     else if check_action action ''enable'' type' \<or> check_action action ''allow'' type' then Some 1
     else None)"

definition global_rule :: "string \<Rightarrow> string \<times> string \<Rightarrow> int option" where
  "global_rule type' line = (if snd line = [] then rule_allowed type' (fst line) else None)"

definition local_rule ::
  "(string \<Rightarrow> string \<Rightarrow> bool) \<Rightarrow> string \<Rightarrow> string \<Rightarrow> bool \<Rightarrow> string \<times> string \<Rightarrow> int option" where
  "local_rule fnm type' dir superdir line =
    (case rule_allowed type' (fst line) of
       None \<Rightarrow> None
     | Some allowed \<Rightarrow>
         if snd line = [] then (if allowed = 0 then Some 0 else None)
         else if hd (snd line) = CHR ''/''
                 \<and> check_dirmatch fnm (path_endslash (snd line)) dir (superdir \<or> allowed = 0)
         then Some allowed else None)"

definition last_or :: "int \<Rightarrow> int list \<Rightarrow> int" where
  "last_or d xs = (if xs = [] then d else last xs)"

text \<open>Two policies with the same two rules in opposite order.\<close>

definition policy_enable_then_disable :: string where
  "policy_enable_then_disable =
     ''enablejail /jails/run'' @ [newline] @ ''disablejail /jails'' @ [newline]"

definition policy_disable_then_enable :: string where
  "policy_disable_then_enable =
     ''disablejail /jails'' @ [newline] @ ''enablejail /jails/run'' @ [newline]"

section \<open>The byte buffer \<^verbatim>\<open>jbuffer\<close>\<close>

type_synonym byte = "8 word"

text \<open>
  \<^verbatim>\<open>struct jbuffer\<close>. \<open>buf\<close> is the array \<^verbatim>\<open>buf_\<close> of \<open>cap\<close> bytes; the sizes and offsets are
  \<^verbatim>\<open>size_t\<close> values, modelled as natural numbers (they count bytes held in memory and bytes
  passed through, far below \<open>2 ^ 64\<close>). The bytes of a fresh array are not initialised;
  the model fills them with 0 and no property reads them.
\<close>

record jbuffer =
  buf :: "byte list"
  head :: nat
  tail :: nat
  cap :: nat
  bufpos :: nat
  rclosed :: bool
  wclosed :: bool
  rerrno :: int

definition jbuffer_new :: "nat \<Rightarrow> jbuffer" where
  "jbuffer_new n =
    \<lparr>buf = replicate n 0, head = 0, tail = 0, cap = n, bufpos = 0,
     rclosed = False, wclosed = False, rerrno = 0\<rparr>"

text \<open>
  The loop \<^verbatim>\<open>while (tail_ + n > ncap) ncap = std::min(ncap * 2, ncap + 131072);\<close> of
  \<^verbatim>\<open>reserve\<close>, with \<open>need\<close> for \<^verbatim>\<open>tail_ + n\<close>. It does not end when \<open>ncap\<close> is 0 and \<open>need\<close> is
  not: the result is \<open>None\<close> then.
\<close>

partial_function (option) reserve_loop :: "nat \<Rightarrow> nat \<Rightarrow> nat option" where
  "reserve_loop need ncap =
    (if need > ncap then reserve_loop need (min (ncap * 2) (ncap + 131072)) else Some ncap)"

declare reserve_loop.simps [code]

definition reserve :: "nat \<Rightarrow> jbuffer \<Rightarrow> jbuffer option" where
  "reserve n0 b =
    (let n = (if n0 = 0 then min (cap b) 131072 else n0)
     in case reserve_loop (tail b + n) (cap b) of
          None \<Rightarrow> None
        | Some ncap \<Rightarrow>
            Some (b\<lparr>buf := take (tail b) (buf b) @ replicate (ncap - tail b) 0, cap := ncap\<rparr>))"

text \<open>
  \<^verbatim>\<open>append(char ch)\<close>. The store \<^verbatim>\<open>buf_[tail_] = ch\<close> lies outside the array when \<open>tail\<close> is
  still \<open>cap\<close> after \<^verbatim>\<open>reserve(0)\<close> (a buffer of capacity 0): \<open>None\<close>.
\<close>

definition append_char :: "byte \<Rightarrow> jbuffer \<Rightarrow> jbuffer option" where
  "append_char ch b =
    (case (if tail b = cap b then reserve 0 b else Some b) of
       None \<Rightarrow> None
     | Some b1 \<Rightarrow>
         if tail b1 < cap b1
         then Some (b1\<lparr>buf := (buf b1)[tail b1 := ch], tail := tail b1 + 1\<rparr>)
         else None)"

text \<open>\<^verbatim>\<open>append(first, last)\<close> with the bytes \<open>[first, last)\<close> as a list.\<close>

definition append :: "byte list \<Rightarrow> jbuffer \<Rightarrow> jbuffer option" where
  "append bytes b =
    (let n = length bytes
     in case (if cap b - tail b < n then reserve n b else Some b) of
          None \<Rightarrow> None
        | Some b1 \<Rightarrow>
            Some (b1\<lparr>buf := take (tail b1) (buf b1) @ bytes @ drop (tail b1 + n) (buf b1),
                     tail := tail b1 + n\<rparr>))"

text \<open>
  What a \<^verbatim>\<open>read\<close> or \<^verbatim>\<open>write\<close> system call returns. For \<^verbatim>\<open>read\<close>: the bytes offered by the
  descriptor, of which the call delivers at most the count asked for (none offered is
  end of file), or the error \<open>-1\<close> with its \<^verbatim>\<open>errno\<close>. For \<^verbatim>\<open>write\<close>: the number of bytes
  the descriptor accepts, of which the call takes at most the count given, or the error.
  \<open>errno_after\<close> is the value of \<^verbatim>\<open>errno\<close> after the call; it is what \<^verbatim>\<open>write\<close> looks at
  also when the call returns 0.
\<close>

datatype read_result = Read_bytes "byte list" | Read_error int

record write_result =
  accepted :: "nat option"
  errno_after :: int

text \<open>\<^verbatim>\<open>jbuffer::read(from)\<close>: the returned \<open>any\<close> and the buffer.\<close>

definition jread :: "int \<Rightarrow> read_result \<Rightarrow> jbuffer \<Rightarrow> bool \<times> jbuffer" where
  "jread from r b =
    (if from \<ge> 0 \<and> \<not> rclosed b \<and> tail b \<noteq> cap b
     then (case r of
             Read_bytes offered \<Rightarrow>
               let bytes = take (cap b - tail b) offered;
                   nr = length bytes
               in if nr \<noteq> 0
                  then (True, b\<lparr>buf := take (tail b) (buf b) @ bytes @ drop (tail b + nr) (buf b),
                                 tail := tail b + nr\<rparr>)
                  else (False, b\<lparr>rclosed := True\<rparr>)
           | Read_error e \<Rightarrow>
               if e \<noteq> EINTR \<and> e \<noteq> EAGAIN
               then (False, b\<lparr>rclosed := True, rerrno := e\<rparr>)
               else (False, b))
     else (False, b))"

text \<open>
  \<^verbatim>\<open>jbuffer::write(to, off)\<close>: \<open>None\<close> where the \<^verbatim>\<open>assert\<close> fails, else the returned \<open>any\<close>,
  the new value of the reference \<open>off\<close> and the buffer.
\<close>

definition jwrite :: "int \<Rightarrow> nat \<Rightarrow> write_result \<Rightarrow> jbuffer \<Rightarrow> (bool \<times> nat \<times> jbuffer) option" where
  "jwrite to off r b =
    (if off \<ge> bufpos b + head b \<and> off \<le> bufpos b + tail b
     then
       (if to \<ge> 0 \<and> \<not> wclosed b \<and> off \<noteq> bufpos b + tail b
        then
          (case accepted r of
             Some n \<Rightarrow>
               let nw = min n (bufpos b + tail b - off)
               in if nw \<noteq> 0 then Some (True, off + nw, b)
                  else if errno_after r \<noteq> EINTR \<and> errno_after r \<noteq> EAGAIN
                  then Some (False, off, b\<lparr>wclosed := True\<rparr>)
                  else Some (False, off, b)
           | None \<Rightarrow>
               if errno_after r \<noteq> EINTR \<and> errno_after r \<noteq> EAGAIN
               then Some (False, off, b\<lparr>wclosed := True\<rparr>)
               else Some (False, off, b))
        else Some (False, off, b))
     else None)"

text \<open>
  \<^verbatim>\<open>jbuffer::consume_to(off)\<close>: \<open>None\<close> where the \<^verbatim>\<open>assert\<close> fails. \<open>compact\<close> is the body of
  its \<^verbatim>\<open>if\<close>: \<^verbatim>\<open>memmove\<close> of the bytes between \<open>head\<close> and \<open>tail\<close> to the start of the array.
\<close>

definition compact :: "jbuffer \<Rightarrow> jbuffer" where
  "compact b =
    b\<lparr>buf := take (tail b - head b) (drop (head b) (buf b)) @ drop (tail b - head b) (buf b),
      tail := tail b - head b,
      bufpos := bufpos b + head b,
      head := 0\<rparr>"

definition consume_to :: "nat \<Rightarrow> jbuffer \<Rightarrow> jbuffer option" where
  "consume_to off b =
    (if off \<ge> bufpos b + head b \<and> off \<le> bufpos b + tail b
     then
       let b1 = b\<lparr>head := off - bufpos b\<rparr>
       in if tail b1 \<ge> 3 * cap b1 div 4 then Some (compact b1) else Some b1
     else None)"

text \<open>
  The bytes that the buffer holds, between the absolute positions \<open>bufpos + head\<close> and
  \<open>bufpos + tail\<close>, and the invariant of the buffers that the program makes (their
  capacities are 4096 and 8192).
\<close>

definition contents :: "jbuffer \<Rightarrow> byte list" where
  "contents b = take (tail b - head b) (drop (head b) (buf b))"

definition jbuffer_inv :: "jbuffer \<Rightarrow> bool" where
  "jbuffer_inv b = (head b \<le> tail b \<and> tail b \<le> cap b \<and> length (buf b) = cap b \<and> 0 < cap b)"

text \<open>
  A sequence of operations on one buffer, each with its arguments and with what the
  system call in it returns. \<open>jstep\<close> is \<open>None\<close> where the operation does not return;
  \<open>jrun\<close> gives the buffer after each operation. \<open>offsets_ok\<close> says that every offset
  passed to \<^verbatim>\<open>write\<close> or \<^verbatim>\<open>consume_to\<close> lies between \<open>bufpos + head\<close> and \<open>bufpos + tail\<close> of
  the buffer at that moment.
\<close>

datatype jop =
  Append "byte list" | Append_char byte | Read int read_result
  | Write int nat write_result | Consume_to nat

definition jstep :: "jop \<Rightarrow> jbuffer \<Rightarrow> jbuffer option" where
  "jstep op b =
    (case op of
       Append bytes \<Rightarrow> append bytes b
     | Append_char ch \<Rightarrow> append_char ch b
     | Read from r \<Rightarrow> Some (snd (jread from r b))
     | Write to off r \<Rightarrow> map_option (\<lambda>res. snd (snd res)) (jwrite to off r b)
     | Consume_to off \<Rightarrow> consume_to off b)"

fun jrun :: "jop list \<Rightarrow> jbuffer \<Rightarrow> jbuffer list option" where
  "jrun [] b = Some []"
| "jrun (op # ops) b =
    (case jstep op b of
       None \<Rightarrow> None
     | Some b1 \<Rightarrow> (case jrun ops b1 of None \<Rightarrow> None | Some bs \<Rightarrow> Some (b1 # bs)))"

definition offset_ok :: "jop \<Rightarrow> jbuffer \<Rightarrow> bool" where
  "offset_ok op b =
    (case op of
       Write to off r \<Rightarrow> bufpos b + head b \<le> off \<and> off \<le> bufpos b + tail b
     | Consume_to off \<Rightarrow> bufpos b + head b \<le> off \<and> off \<le> bufpos b + tail b
     | _ \<Rightarrow> True)"

fun offsets_ok :: "jop list \<Rightarrow> jbuffer \<Rightarrow> bool" where
  "offsets_ok [] b = True"
| "offsets_ok (op # ops) b =
    (offset_ok op b \<and> (case jstep op b of None \<Rightarrow> True | Some b1 \<Rightarrow> offsets_ok ops b1))"

text \<open>
  A run on a buffer of capacity 4 that meets a partial write, two compactions, a read
  into a full buffer and a growing \<^verbatim>\<open>reserve\<close>.
\<close>

definition example_ops :: "jop list" where
  "example_ops =
    [Append [1, 2, 3],
     Write 1 0 \<lparr>accepted = Some 2, errno_after = 0\<rparr>,
     Consume_to 2,
     Append [4, 5, 6],
     Read 0 (Read_bytes [7]),
     Consume_to 3,
     Append_char 9,
     Append [10, 11]]"

section \<open>The controller's check for termination\<close>

text \<open>
  \<^verbatim>\<open>struct timeval\<close> with the macros \<^verbatim>\<open>timerisset\<close> and \<^verbatim>\<open>timercmp(a, b, >)\<close> of
  \<^verbatim>\<open><sys/time.h>\<close>.
\<close>

record timeval =
  tv_sec :: int
  tv_usec :: int

definition timerisset :: "timeval \<Rightarrow> bool" where
  "timerisset tv = (tv_sec tv \<noteq> 0 \<or> tv_usec tv \<noteq> 0)"

definition timercmp_gt :: "timeval \<Rightarrow> timeval \<Rightarrow> bool" where
  "timercmp_gt a b =
    (if tv_sec a = tv_sec b then tv_usec a > tv_usec b else tv_sec a > tv_sec b)"

text \<open>
  The members of \<^verbatim>\<open>jailownerinfo\<close> that \<^verbatim>\<open>check_child_timeout\<close> reads or writes, with the
  globals \<^verbatim>\<open>got_sigterm\<close> and \<^verbatim>\<open>errno\<close>.
\<close>

record controller =
  child_status :: int
  expiry :: timeval
  idle_expiry :: timeval
  got_sigterm :: int
  errno :: int

text \<open>
  The \<^verbatim>\<open>do ... while (xr.first != -1)\<close> loop. \<open>xrs\<close> are the pairs that the successive calls
  \<^verbatim>\<open>x_waitpid(-1, WNOHANG)\<close> return; the loop ends with the first pair whose pid is \<open>-1\<close>.
  The result is the new \<^verbatim>\<open>child_status_\<close>, or \<open>None\<close> if \<open>xrs\<close> holds no such pair (the loop
  has not ended with the results given).
\<close>

fun reap_children :: "int \<Rightarrow> (int \<times> int) list \<Rightarrow> int \<Rightarrow> int option" where
  "reap_children child [] status = None"
| "reap_children child (xr # xrs) status =
    (let status1 = (if fst xr = child then snd xr else status)
     in if fst xr = - 1 then Some status1 else reap_children child xrs status1)"

text \<open>
  \<^verbatim>\<open>jailownerinfo::check_child_timeout(child, waitpid)\<close>. \<open>err\<close> is the \<^verbatim>\<open>errno\<close> that the
  last \<^verbatim>\<open>x_waitpid\<close> leaves, \<open>now\<close> is what \<^verbatim>\<open>gettimeofday\<close> returns. The result is the
  returned code with the state after the call.
\<close>

definition check_child_timeout ::
  "int \<Rightarrow> bool \<Rightarrow> (int \<times> int) list \<Rightarrow> int \<Rightarrow> timeval \<Rightarrow> controller
     \<Rightarrow> (int \<times> controller) option" where
  "check_child_timeout child waitpid xrs err now c0 =
    (case reap_children child xrs (child_status c0) of
       None \<Rightarrow> None
     | Some status \<Rightarrow>
         let c = c0\<lparr>child_status := status, errno := err\<rparr>
         in if errno c \<noteq> EAGAIN \<and> errno c \<noteq> ECHILD then Some (125, c)
            else if child_status c \<ge> 0 \<and> waitpid then Some (child_status c, c)
            else if got_sigterm c \<noteq> 0 then Some (128 + SIGTERM, c)
            else if (timerisset (expiry c) \<or> timerisset (idle_expiry c))
                    \<and> ((timerisset (expiry c) \<and> timercmp_gt now (expiry c))
                        \<or> (timerisset (idle_expiry c) \<and> timercmp_gt now (idle_expiry c)))
            then Some (124, c)
            else Some (- 1, c\<lparr>errno := EAGAIN\<rparr>))"

section \<open>JSON strings for the event stream\<close>

text \<open>
  The digits \<^verbatim>\<open>hex[]\<close> and the bytes that \<^verbatim>\<open>append_json_chars\<close> appends after the backslash
  of an escape, for a byte \<open>c\<close> that is below 32 or is a backslash or a double quote.
\<close>

definition hex :: "byte list" where
  "hex = map of_char ''0123456789ABCDEF''"

definition escape_tail :: "byte \<Rightarrow> byte list" where
  "escape_tail c =
    (if c = 8 then [0x62]
     else if c = 12 then [0x66]
     else if c = 10 then [0x6E]
     else if c = 13 then [0x72]
     else if c = 9 then [0x74]
     else if c \<ge> 32 then [c]
     else [0x75, 0x30, 0x30, hex ! unat (c div 16), hex ! unat (c mod 16)])"

text \<open>A run of \<^verbatim>\<open>append(char)\<close> calls, and \<^verbatim>\<open>append(stop, first)\<close> followed by such a run.\<close>

fun append_chars :: "byte list \<Rightarrow> jbuffer \<Rightarrow> jbuffer option" where
  "append_chars [] b = Some b"
| "append_chars (ch # chs) b =
    (case append_char ch b of None \<Rightarrow> None | Some b1 \<Rightarrow> append_chars chs b1)"

definition flush_then :: "byte list \<Rightarrow> byte list \<Rightarrow> jbuffer \<Rightarrow> jbuffer option" where
  "flush_then pending chs b =
    (case append pending b of None \<Rightarrow> None | Some b1 \<Rightarrow> append_chars chs b1)"

text \<open>
  The \<^verbatim>\<open>while (first != last)\<close> loop of \<^verbatim>\<open>append_json_chars\<close>. \<open>pending\<close> are the bytes
  \<open>[stop, first)\<close> not yet appended, the second argument are the bytes \<open>[first, last)\<close>.
  The label \<^verbatim>\<open>skip\<close> appends the pending bytes and \<^verbatim>\<open>'\x7F'\<close> and goes on behind the
  byte at \<open>first\<close>; a \<^verbatim>\<open>break\<close> leaves the loop with the bytes from \<open>first\<close> on unread.
  The result is \<open>pending\<close>, the unread bytes and the buffer at the end of the loop.
\<close>

fun ajc_loop :: "byte list \<Rightarrow> byte list \<Rightarrow> jbuffer \<Rightarrow> (byte list \<times> byte list \<times> jbuffer) option" where
  "ajc_loop pending [] b = Some (pending, [], b)"
| "ajc_loop pending (c # cs) b =
    (if c = 0
     then (case flush_then pending [0x7F] b of None \<Rightarrow> None | Some b1 \<Rightarrow> ajc_loop [] cs b1)
     else if c < 32 \<or> c = 0x5C \<or> c = 0x22
     then (case flush_then pending (0x5C # escape_tail c) b of
             None \<Rightarrow> None
           | Some b1 \<Rightarrow> ajc_loop [] cs b1)
     else if c < 0x80 then ajc_loop (pending @ [c]) cs b
     else if c < 0xC2 \<or> c > 0xF4
     then (case flush_then pending [0x7F] b of None \<Rightarrow> None | Some b1 \<Rightarrow> ajc_loop [] cs b1)
     else
       (case cs of
          [] \<Rightarrow> Some (pending, c # cs, b)
        | c1 # cs1 \<Rightarrow>
            if c1 < 0x80 \<or> c1 > 0xBF
            then (case flush_then pending [0x7F] b of
                    None \<Rightarrow> None
                  | Some b1 \<Rightarrow> ajc_loop [] cs b1)
            else if c < 0xE0 then ajc_loop (pending @ [c, c1]) cs1 b
            else if (c = 0xE0 \<and> c1 < 0xA0) \<or> (c = 0xED \<and> c1 > 0x9F)
                    \<or> (c = 0xF0 \<and> c1 < 0x90) \<or> (c = 0xF4 \<and> c1 > 0x8F)
            then (case flush_then pending [0x7F] b of
                    None \<Rightarrow> None
                  | Some b1 \<Rightarrow> ajc_loop [] cs b1)
            else
              (case cs1 of
                 [] \<Rightarrow> Some (pending, c # cs, b)
               | c2 # cs2 \<Rightarrow>
                   if c2 < 0x80 \<or> c2 > 0xBF
                   then (case flush_then pending [0x7F] b of
                           None \<Rightarrow> None
                         | Some b1 \<Rightarrow> ajc_loop [] cs b1)
                   else if c < 0xF0 then ajc_loop (pending @ [c, c1, c2]) cs2 b
                   else
                     (case cs2 of
                        [] \<Rightarrow> Some (pending, c # cs, b)
                      | c3 # cs3 \<Rightarrow>
                          if c3 < 0x80 \<or> c3 > 0xBF
                          then (case flush_then pending [0x7F] b of
                                  None \<Rightarrow> None
                                | Some b1 \<Rightarrow> ajc_loop [] cs b1)
                          else ajc_loop (pending @ [c, c1, c2, c3]) cs3 b))))"

text \<open>
  \<^verbatim>\<open>jbuffer::append_json_chars(first, last)\<close> on the bytes \<open>inp\<close>: the returned pointer, as
  an index into \<open>inp\<close>, and the buffer; \<open>None\<close> if an \<^verbatim>\<open>append\<close> does not return.
\<close>

definition append_json_chars :: "byte list \<Rightarrow> jbuffer \<Rightarrow> (nat \<times> jbuffer) option" where
  "append_json_chars inp b =
    (case ajc_loop [] inp b of
       None \<Rightarrow> None
     | Some (pending, unread, b1) \<Rightarrow>
         (case append pending b1 of
            None \<Rightarrow> None
          | Some b2 \<Rightarrow> Some (length inp - length unread, b2)))"

subsection \<open>What the specification asks of the output\<close>

text \<open>
  The well-formed UTF-8 byte sequences of the Unicode standard (table 3-7), one sequence
  for one scalar value, and the sequences that are a proper beginning of one (a sequence
  cut short). \<open>continuation\<close> is a byte from 80 to BF, \<open>lead_of2\<close> a first byte of a
  sequence of two, \<open>lead_byte\<close> a first byte of any longer sequence; \<open>second_of3\<close> and
  \<open>second_of4\<close> say which second byte may follow which first byte in a sequence of
  three and of four.
\<close>

definition continuation :: "byte \<Rightarrow> bool" where
  "continuation c = (0x80 \<le> c \<and> c \<le> 0xBF)"

definition lead_of2 :: "byte \<Rightarrow> bool" where
  "lead_of2 a = (0xC2 \<le> a \<and> a \<le> 0xDF)"

definition lead_byte :: "byte \<Rightarrow> bool" where
  "lead_byte a = (0xC2 \<le> a \<and> a \<le> 0xF4)"

definition second_of3 :: "byte \<Rightarrow> byte \<Rightarrow> bool" where
  "second_of3 a c =
    ((a = 0xE0 \<and> 0xA0 \<le> c \<and> c \<le> 0xBF)
     \<or> (0xE1 \<le> a \<and> a \<le> 0xEC \<and> continuation c)
     \<or> (a = 0xED \<and> 0x80 \<le> c \<and> c \<le> 0x9F)
     \<or> (0xEE \<le> a \<and> a \<le> 0xEF \<and> continuation c))"

definition second_of4 :: "byte \<Rightarrow> byte \<Rightarrow> bool" where
  "second_of4 a c =
    ((a = 0xF0 \<and> 0x90 \<le> c \<and> c \<le> 0xBF)
     \<or> (0xF1 \<le> a \<and> a \<le> 0xF3 \<and> continuation c)
     \<or> (a = 0xF4 \<and> 0x80 \<le> c \<and> c \<le> 0x8F))"

fun utf8_seq :: "byte list \<Rightarrow> bool" where
  "utf8_seq [a] = (a \<le> 0x7F)"
| "utf8_seq [a, c1] = (lead_of2 a \<and> continuation c1)"
| "utf8_seq [a, c1, c2] = (second_of3 a c1 \<and> continuation c2)"
| "utf8_seq [a, c1, c2, c3] = (second_of4 a c1 \<and> continuation c2 \<and> continuation c3)"
| "utf8_seq _ = False"

fun utf8_cut_short :: "byte list \<Rightarrow> bool" where
  "utf8_cut_short [a] = lead_byte a"
| "utf8_cut_short [a, c1] = (second_of3 a c1 \<or> second_of4 a c1)"
| "utf8_cut_short [a, c1, c2] = (second_of4 a c1 \<and> continuation c2)"
| "utf8_cut_short _ = False"

text \<open>The length of the well-formed sequence that the bytes start with, if there is one.\<close>

definition utf8_len :: "byte list \<Rightarrow> nat option" where
  "utf8_len inp = find (\<lambda>n. n \<le> length inp \<and> utf8_seq (take n inp)) [1, 2, 3, 4]"

text \<open>
  How one ASCII byte is to appear in the JSON string: NUL as the byte 7F, the other
  bytes below 20 and the backslash and the double quote as an escape, every other byte
  as it is.
\<close>

definition json_escape :: "byte \<Rightarrow> byte list" where
  "json_escape c =
    (if c = 0 then [0x7F]
     else if c < 0x20 \<or> c = 0x5C \<or> c = 0x22 then 0x5C # escape_tail c
     else [c])"

text \<open>
  The output that the specification asks for and the number of bytes consumed: a
  well-formed sequence is copied (escaped if it is a single ASCII byte that needs it), a
  sequence cut short by the end of the input is left unconsumed, and any other byte is
  replaced by the byte 7F.
\<close>

lemma utf8_len_pos: "utf8_len inp = Some n \<Longrightarrow> 0 < n"
proof -
  assume "utf8_len inp = Some n"
  then have "n \<in> set [1, 2, 3, 4]"
    unfolding utf8_len_def by (metis find_Some_iff nth_mem)
  then show ?thesis by auto
qed

function json_spec :: "byte list \<Rightarrow> byte list \<times> nat" where
  "json_spec inp =
    (if inp = [] then ([], 0)
     else
       (case utf8_len inp of
          Some n \<Rightarrow>
            ((if n = 1 then json_escape (hd inp) else take n inp) @ fst (json_spec (drop n inp)),
             n + snd (json_spec (drop n inp)))
        | None \<Rightarrow>
            if utf8_cut_short inp then ([], 0)
            else (0x7F # fst (json_spec (tl inp)), 1 + snd (json_spec (tl inp)))))"
  by pat_completeness auto
termination
  by (relation "measure length") (auto dest: utf8_len_pos)

declare json_spec.simps [simp del]

text \<open>
  What the loop owes the specification, from a buffer \<open>b\<close> with the bytes \<open>pending\<close> not yet
  appended and the bytes \<open>unread\<close> ahead: it ends; the buffer together with what is still
  pending then holds what \<open>b\<close> held, the pending bytes and the output asked for; and the
  bytes left unread are those behind the consumed ones.
\<close>

definition ajc_ok :: "byte list \<Rightarrow> byte list \<Rightarrow> jbuffer \<Rightarrow> bool" where
  "ajc_ok pending unread b \<longleftrightarrow>
    (\<exists>pending' b'. ajc_loop pending unread b
         = Some (pending', drop (snd (json_spec unread)) unread, b')
       \<and> jbuffer_inv b'
       \<and> contents b' @ pending' = contents b @ pending @ fst (json_spec unread)
       \<and> snd (json_spec unread) \<le> length unread)"

text \<open>
  An input with an ASCII letter, a NUL, a sequence of two bytes, a newline, a byte that
  begins no sequence, an escape character and a sequence of three bytes cut short.
\<close>

definition example_bytes :: "byte list" where
  "example_bytes = [0x41, 0x00, 0xC3, 0xA9, 0x0A, 0xFF, 0x1B, 0xE2, 0x82]"

section \<open>Properties of the mount table\<close>

text \<open>
  C3. \<^verbatim>\<open>mountable(src, dst)\<close> implements the phase rules, tried in the order the
  specification lists them. For \<^verbatim>\<open>/proc\<close> of type \<^verbatim>\<open>proc\<close> and \<^verbatim>\<open>/dev/pts\<close> of type
  \<^verbatim>\<open>devpts\<close> it returns true iff the phase is 2; for \<^verbatim>\<open>/tmp\<close> of type \<^verbatim>\<open>tmpfs\<close> it returns
  true iff the phase is not 1; for \<^verbatim>\<open>/run\<close> of type \<^verbatim>\<open>tmpfs\<close> it returns false; none of
  these touches the deferred list. For an entry that is none of these and is \<^verbatim>\<open>/sys\<close> of
  type \<^verbatim>\<open>sysfs\<close>, \<^verbatim>\<open>/dev\<close> of type \<^verbatim>\<open>udev\<close> or a user-declared (wanted) mount, it returns
  false and appends \<open>src\<close>, \<open>dst\<close> to the deferred list in phase 1, and returns true with
  the list unchanged in the other phases (0 and 2). For every other entry it returns
  false and leaves the list unchanged.
\<close>

theorem mountable_phase_rules:
  fixes ms :: mountslot and st :: mount_state and src dst :: string
  defines "child_only \<equiv> (src = ''/proc'' \<and> type ms = ''proc'') \<or> (src = ''/dev/pts'' \<and> type ms = ''devpts'')"
    and "tmp \<equiv> src = ''/tmp'' \<and> type ms = ''tmpfs''"
    and "run \<equiv> src = ''/run'' \<and> type ms = ''tmpfs''"
    and "deferrable \<equiv> (src = ''/sys'' \<and> type ms = ''sysfs'') \<or> (src = ''/dev'' \<and> type ms = ''udev'') \<or> wanted ms"
  shows
    "(child_only \<longrightarrow> mountable ms src dst st = (mount_status st = 2, st)) \<and>
     (tmp \<longrightarrow> mountable ms src dst st = (mount_status st \<noteq> 1, st)) \<and>
     (run \<longrightarrow> mountable ms src dst st = (False, st)) \<and>
     (\<not> child_only \<and> \<not> tmp \<and> \<not> run \<and> deferrable \<and> mount_status st = 1 \<longrightarrow>
        mountable ms src dst st = (False, st\<lparr>delayed_mounts := delayed_mounts st @ [src, dst]\<rparr>)) \<and>
     (\<not> child_only \<and> \<not> tmp \<and> \<not> run \<and> deferrable \<and> mount_status st \<noteq> 1 \<longrightarrow>
        mountable ms src dst st = (True, st)) \<and>
     (\<not> child_only \<and> \<not> tmp \<and> \<not> run \<and> \<not> deferrable \<longrightarrow>
        mountable ms src dst st = (False, st))"
  unfolding child_only_def tmp_def run_def deferrable_def mountable_def
  by auto

theorem mountable_phase_rules_witness:
  "mountable \<lparr>fsname = ''/home/course'', type = ''none'', opts = 0, data = [], wanted = True\<rparr>
     ''/home/course'' ''/jails/j1/home/course'' \<lparr>mount_status = 1, delayed_mounts = []\<rparr>
   = (False, \<lparr>mount_status = 1, delayed_mounts = [''/home/course'', ''/jails/j1/home/course'']\<rparr>)
   \<and> mountable \<lparr>fsname = ''proc'', type = ''proc'', opts = 0, data = [], wanted = False\<rparr>
     ''/proc'' ''/jails/j1/proc'' \<lparr>mount_status = 2, delayed_mounts = []\<rparr>
   = (True, \<lparr>mount_status = 2, delayed_mounts = []\<rparr>)
   \<and> mountable \<lparr>fsname = ''tmpfs'', type = ''tmpfs'', opts = 0, data = [], wanted = False\<rparr>
     ''/tmp'' ''/jails/j1/tmp'' \<lparr>mount_status = 1, delayed_mounts = []\<rparr>
   = (False, \<lparr>mount_status = 1, delayed_mounts = []\<rparr>)
   \<and> mountable \<lparr>fsname = ''tmpfs'', type = ''tmpfs'', opts = 0, data = [], wanted = False\<rparr>
     ''/run'' ''/jails/j1/run'' \<lparr>mount_status = 0, delayed_mounts = []\<rparr>
   = (False, \<lparr>mount_status = 0, delayed_mounts = []\<rparr>)
   \<and> mountable \<lparr>fsname = ''sysfs'', type = ''sysfs'', opts = 0, data = [], wanted = False\<rparr>
     ''/sys'' ''/jails/j1/sys'' \<lparr>mount_status = 0, delayed_mounts = []\<rparr>
   = (True, \<lparr>mount_status = 0, delayed_mounts = []\<rparr>)
   \<and> mountable \<lparr>fsname = ''/dev/sda1'', type = ''ext4'', opts = 0, data = [], wanted = False\<rparr>
     ''/'' ''/jails/j1/'' \<lparr>mount_status = 2, delayed_mounts = []\<rparr>
   = (False, \<lparr>mount_status = 2, delayed_mounts = []\<rparr>)"
  using
    mountable_phase_rules [of "''/home/course''"
      "\<lparr>fsname = ''/home/course'', type = ''none'', opts = 0, data = [], wanted = True\<rparr>"
      "''/jails/j1/home/course''" "\<lparr>mount_status = 1, delayed_mounts = []\<rparr>"]
    mountable_phase_rules [of "''/proc''"
      "\<lparr>fsname = ''proc'', type = ''proc'', opts = 0, data = [], wanted = False\<rparr>"
      "''/jails/j1/proc''" "\<lparr>mount_status = 2, delayed_mounts = []\<rparr>"]
    mountable_phase_rules [of "''/tmp''"
      "\<lparr>fsname = ''tmpfs'', type = ''tmpfs'', opts = 0, data = [], wanted = False\<rparr>"
      "''/jails/j1/tmp''" "\<lparr>mount_status = 1, delayed_mounts = []\<rparr>"]
    mountable_phase_rules [of "''/run''"
      "\<lparr>fsname = ''tmpfs'', type = ''tmpfs'', opts = 0, data = [], wanted = False\<rparr>"
      "''/jails/j1/run''" "\<lparr>mount_status = 0, delayed_mounts = []\<rparr>"]
    mountable_phase_rules [of "''/sys''"
      "\<lparr>fsname = ''sysfs'', type = ''sysfs'', opts = 0, data = [], wanted = False\<rparr>"
      "''/jails/j1/sys''" "\<lparr>mount_status = 0, delayed_mounts = []\<rparr>"]
    mountable_phase_rules [of "''/''"
      "\<lparr>fsname = ''/dev/sda1'', type = ''ext4'', opts = 0, data = [], wanted = False\<rparr>"
      "''/jails/j1/''" "\<lparr>mount_status = 2, delayed_mounts = []\<rparr>"]
  by simp

text \<open>
  C4. The option word \<^verbatim>\<open>rw\<close> is in the table with value 0. \<^verbatim>\<open>add_mountopt\<close> clears the
  read-only flag for it, but the constructor or-s the value 0 into \<open>opts\<close>, which changes
  nothing: the options string \<^verbatim>\<open>ro,rw\<close> given to the constructor leaves the read-only flag
  set, while \<^verbatim>\<open>ro\<close> given to the constructor followed by \<^verbatim>\<open>add_mountopt("rw")\<close> clears it.
\<close>

theorem mountslot_ro_rw_keeps_rdonly:
  "opts (mountslot_new ''tmpfs'' ''tmpfs'' (Some ''ro,rw'')) AND word_of_int MS_RDONLY = 1
   \<and> map_option (\<lambda>m. opts m AND word_of_int MS_RDONLY)
         (add_mountopt ''rw'' (mountslot_new ''tmpfs'' ''tmpfs'' (Some ''ro''))) = Some 0"
  by code_simp

text \<open>What \<^verbatim>\<open>add_mountopt("rw")\<close> does on every mount entry: it clears the read-only bit.\<close>

lemma add_mountopt_rw:
  "add_mountopt ''rw'' ms = Some (ms\<lparr>opts := opts ms AND NOT 1\<rparr>)"
  by (simp add: add_mountopt_def c_str_def in_key_def find_mountarg_def mountargs_def MS_defs)

lemma add_mountopt_rw_clears_rdonly:
  "opts (the (add_mountopt ''rw'' ms)) AND word_of_int MS_RDONLY = 0"
  by (simp add: add_mountopt_rw MS_defs and.assoc)

section \<open>Properties of shell quoting and of the command line\<close>

text \<open>
  C10. With two or more command words, the command given to the shell after \<^verbatim>\<open>-c\<close> holds
  the first word twice: it is the quoted first word, then a space and the quoted form of
  every word, starting again from the first. With exactly one word the command is that
  word as it is, unquoted.
\<close>

theorem exec_command_repeats_first_word:
  "exec_command (a # b # rest) =
     shell_quote a @ concat (map (\<lambda>w. '' '' @ shell_quote w) (a # b # rest))
   \<and> exec_argv owner_sh (a # b # rest) =
       [owner_sh, ''-l'', ''-c'',
        shell_quote a @ '' '' @ shell_quote a @ '' '' @ shell_quote b
          @ concat (map (\<lambda>w. '' '' @ shell_quote w) rest)]
   \<and> exec_command [a] = a
   \<and> exec_argv owner_sh [a] = [owner_sh, ''-l'', ''-c'', a]"
proof -
  have fold: "foldl (\<lambda>command a. command @ CHR '' '' # shell_quote a) acc ws =
      acc @ concat (map (\<lambda>w. CHR '' '' # shell_quote w) ws)" for acc ws
    by (induction ws arbitrary: acc) simp_all
  show ?thesis
    by (simp add: exec_command_def exec_argv_def fold)
qed

lemma shell_quote_echo: "shell_quote ''echo'' = ''echo''"
  by code_simp

lemma shell_quote_a_b: "shell_quote ''a b'' = [squote] @ ''a b'' @ [squote]"
  by code_simp

theorem exec_command_repeats_first_word_witness:
  "exec_argv ''/bin/sh'' [''echo'', ''a b''] =
     [''/bin/sh'', ''-l'', ''-c'', ''echo echo '' @ [squote] @ ''a b'' @ [squote]]
   \<and> exec_argv ''/bin/sh'' [''ls''] = [''/bin/sh'', ''-l'', ''-c'', ''ls'']"
  using exec_command_repeats_first_word [of "''echo''" "''a b''" "[]" "''/bin/sh''"]
    exec_command_repeats_first_word [of "''ls''" "''a b''" "[]" "''/bin/sh''"]
  by (simp add: shell_quote_echo shell_quote_a_b)

subsection \<open>The shell reads a quoted word back\<close>

lemma sq_escape_id: "squote \<notin> set xs \<Longrightarrow> concat (map sq_escape xs) = xs"
  by (induction xs) (auto simp: sq_escape_def)

lemma squote_needs_quote: "needs_quote pos squote"
  by (simp add: needs_quote_def isalnum_def)

lemma ex_snoc: "(\<exists>i<length (pre @ [c]). P i ((pre @ [c]) ! i)) \<longleftrightarrow>
   (\<exists>i<length pre. P i (pre ! i)) \<or> P (length pre) c"
proof
  assume "\<exists>i<length (pre @ [c]). P i ((pre @ [c]) ! i)"
  then obtain i where i: "i < Suc (length pre)" "P i ((pre @ [c]) ! i)" by auto
  show "(\<exists>i<length pre. P i (pre ! i)) \<or> P (length pre) c"
  proof (cases "i = length pre")
    case True
    with i(2) show ?thesis by simp
  next
    case False
    with i have "i < length pre" "P i (pre ! i)" by (simp_all add: nth_append)
    then show ?thesis by blast
  qed
next
  assume "(\<exists>i<length pre. P i (pre ! i)) \<or> P (length pre) c"
  then show "\<exists>i<length (pre @ [c]). P i ((pre @ [c]) ! i)"
  proof
    assume "\<exists>i<length pre. P i (pre ! i)"
    then obtain i where "i < length pre" "P i (pre ! i)" by blast
    then have "i < length (pre @ [c])" "P i ((pre @ [c]) ! i)" by (simp_all add: nth_append)
    then show ?thesis by blast
  next
    assume "P (length pre) c"
    then have "length pre < length (pre @ [c])" "P (length pre) ((pre @ [c]) ! length pre)" by simp_all
    then show ?thesis by blast
  qed
qed

lemma sq_inv_plain:
  assumes "sq_inv pre quoted l" "\<not> needs_quote (length pre) c"
  shows "sq_inv (pre @ [c]) quoted l"
proof -
  have l: "l \<le> length pre" and nq: "squote \<notin> set (drop l pre)"
    using assms(1) by (simp_all add: sq_inv_def)
  have c: "c \<noteq> squote" using assms(2) squote_needs_quote by blast
  have ex: "(\<exists>i<length (pre @ [c]). needs_quote i ((pre @ [c]) ! i)) = (\<exists>i<length pre. needs_quote i (pre ! i))"
    unfolding ex_snoc using assms(2) by simp
  show ?thesis
    unfolding sq_inv_def ex using assms(1) l nq c by (simp add: sq_inv_def)
qed

lemma sq_inv_quote:
  assumes "sq_inv pre quoted l" "needs_quote (length pre) c" "c \<noteq> squote"
  shows "sq_inv (pre @ [c]) (if quoted = [] then [squote] else quoted) l"
proof -
  have l: "l \<le> length pre" and nq: "squote \<notin> set (drop l pre)"
    using assms(1) by (simp_all add: sq_inv_def)
  have ex: "(\<exists>i<length (pre @ [c]). needs_quote i ((pre @ [c]) ! i)) = True"
    unfolding ex_snoc using assms(2) by simp
  have q: "(if quoted = [] then [squote] else quoted) = squote # concat (map sq_escape (take l pre))"
    using assms(1) by (cases "\<exists>i<length pre. needs_quote i (pre ! i)") (simp_all add: sq_inv_def)
  show ?thesis
    unfolding sq_inv_def ex using l nq assms(3) q by simp
qed

lemma sq_inv_squote:
  assumes "sq_inv pre quoted l"
  shows "sq_inv (pre @ [squote])
           ((if quoted = [] then [squote] else quoted) @ substr (pre @ squote # cs) l (length pre - l)
              @ [squote, backslash, squote, squote]) (length pre + 1)"
proof -
  have l: "l \<le> length pre" and nq: "squote \<notin> set (drop l pre)"
    using assms by (auto simp: sq_inv_def)
  have sub: "substr (pre @ squote # cs) l (length pre - l) = drop l pre"
    using l by (simp add: substr_def)
  have q: "(if quoted = [] then [squote] else quoted) = squote # concat (map sq_escape (take l pre))"
    using assms by (cases "\<exists>i<length pre. needs_quote i (pre ! i)") (simp_all add: sq_inv_def)
  have "concat (map sq_escape (pre @ [squote])) =
     concat (map sq_escape (take l pre)) @ drop l pre @ [squote, backslash, squote, squote]"
  proof -
    have "pre = take l pre @ drop l pre" by simp
    then have "concat (map sq_escape pre) = concat (map sq_escape (take l pre)) @ concat (map sq_escape (drop l pre))"
      by (metis concat_append map_append)
    then show ?thesis using nq by (simp add: sq_escape_id) (simp add: sq_escape_def)
  qed
  moreover have ex: "(\<exists>i<length (pre @ [squote]). needs_quote i ((pre @ [squote]) ! i)) = True"
    unfolding ex_snoc using squote_needs_quote by simp
  ultimately show ?thesis
    unfolding sq_inv_def ex using sub q by simp
qed

lemma shell_quote_loop_inv:
  "sq_inv pre quoted l \<Longrightarrow>
   (case shell_quote_loop (pre @ cs) (length pre) cs quoted l of (q, l') \<Rightarrow> sq_inv (pre @ cs) q l')"
proof (induction cs arbitrary: pre quoted l)
  case Nil
  then show ?case by simp
next
  case (Cons c cs)
  have arg: "pre @ c # cs = (pre @ [c]) @ cs" by simp
  have len: "Suc (length pre) = length (pre @ [c])" by simp
  consider "\<not> needs_quote (length pre) c" | "needs_quote (length pre) c" "c \<noteq> squote" | "c = squote"
    by blast
  then show ?case
  proof cases
    case 1
    from sq_inv_plain [OF Cons.prems 1] show ?thesis
      using 1 Cons.IH [of "pre @ [c]" quoted l] by simp
  next
    case 2
    from sq_inv_quote [OF Cons.prems 2] show ?thesis
      using 2 Cons.IH [of "pre @ [c]" "if quoted = [] then [squote] else quoted" l] by simp
  next
    case 3
    from sq_inv_squote [OF Cons.prems, of cs] show ?thesis
      using 3 squote_needs_quote [of "length pre"]
        Cons.IH [of "pre @ [squote]" "(if quoted = [] then [squote] else quoted) @ substr (pre @ squote # cs) l (length pre - l)
              @ [squote, backslash, squote, squote]" "length pre + 1"] by simp
  qed
qed

lemma shell_quote_eq:
  "shell_quote s =
     (if \<exists>i<length s. needs_quote i (s ! i) then squote # concat (map sq_escape s) @ [squote] else s)"
proof -
  have "sq_inv [] [] 0" by (simp add: sq_inv_def)
  from shell_quote_loop_inv [OF this, of s]
  obtain q l where loop: "shell_quote_loop s 0 s [] 0 = (q, l)" and inv: "sq_inv s q l"
    by (cases "shell_quote_loop s 0 s [] 0") auto
  show ?thesis
  proof (cases "\<exists>i<length s. needs_quote i (s ! i)")
    case True
    with inv have q: "q = squote # concat (map sq_escape (take l s))" and nq: "squote \<notin> set (drop l s)"
      by (auto simp: sq_inv_def)
    have "concat (map sq_escape s) = concat (map sq_escape (take l s)) @ concat (map sq_escape (drop l s))"
      by (metis append_take_drop_id concat_append map_append)
    with nq have "concat (map sq_escape s) = concat (map sq_escape (take l s)) @ drop l s"
      by (simp add: sq_escape_id)
    with True q show ?thesis by (simp add: shell_quote_def loop)
  next
    case False
    with inv have "q = []" by (auto simp: sq_inv_def)
    then have "shell_quote s = s" by (simp add: shell_quote_def loop)
    with False show ?thesis by (simp only: if_False)
  qed
qed

lemma sh_squoted_escape:
  "sh_squoted (Some w) (concat (map sq_escape s) @ squote # rest) = sh_unquoted (Some (w @ s)) rest"
proof (induction s arbitrary: w)
  case Nil
  then show ?case by simp
next
  case (Cons c s)
  show ?case
  proof (cases "c = squote")
    case True
    then show ?thesis using Cons.IH [of "w @ [squote]"]
      by (simp add: sq_escape_def sh_blank_def sh_add_def)
  next
    case False
    then show ?thesis using Cons.IH [of "w @ [c]"]
      by (simp add: sq_escape_def sh_add_def)
  qed
qed

lemma plain_unquoted:
  assumes "\<not> needs_quote (Suc n) c"
  shows "\<not> sh_blank c" "c \<noteq> squote" "c \<noteq> backslash" "sh_plain c"
  using assms by (auto simp: needs_quote_def sh_blank_def sh_plain_def isalnum_def)

lemma sh_unquoted_plain:
  "\<forall>i<length s. \<not> needs_quote (Suc i) (s ! i) \<Longrightarrow> sh_unquoted (Some w) s = Some [w @ s]"
proof (induction s arbitrary: w)
  case Nil
  then show ?case by (simp add: sh_end_def)
next
  case (Cons c s)
  from Cons.prems have c: "\<not> needs_quote (Suc 0) c" by auto
  from Cons.prems have "\<forall>i<length s. \<not> needs_quote (Suc i) (s ! i)" by (auto simp: needs_quote_def)
  from Cons.IH [OF this, of "w @ [c]"] show ?case
    using plain_unquoted [OF c] by (simp add: sh_add_def)
qed

lemma shell_quote_roundtrip_nonempty:
  assumes "s \<noteq> []"
  shows "sh_words (shell_quote s) = Some [s]"
proof (cases "\<exists>i<length s. needs_quote i (s ! i)")
  case True
  then have "shell_quote s = squote # concat (map sq_escape s) @ [squote]"
    by (simp only: shell_quote_eq if_True)
  moreover have "sh_words (squote # concat (map sq_escape s) @ [squote]) =
      sh_squoted (Some []) (concat (map sq_escape s) @ squote # [])"
    by (simp add: sh_words_def sh_blank_def sh_add_def)
  moreover have "sh_squoted (Some []) (concat (map sq_escape s) @ squote # []) = sh_unquoted (Some ([] @ s)) []"
    by (rule sh_squoted_escape)
  moreover have "sh_unquoted (Some ([] @ s)) [] = Some [s]"
    by (simp add: sh_end_def)
  ultimately show ?thesis by (simp only:)
next
  case False
  obtain c cs where s: "s = c # cs" using assms by (cases s) auto
  from False have c0: "\<not> needs_quote 0 c" and rest: "\<forall>i<length cs. \<not> needs_quote (Suc i) (cs ! i)"
    by (auto simp: s)
  from c0 have c1: "\<not> needs_quote (Suc 0) c" "c \<noteq> CHR ''~''" by (auto simp: needs_quote_def)
  from False have "shell_quote s = s"
    by (simp only: shell_quote_eq if_False)
  then show ?thesis
    using plain_unquoted [OF c1(1)] c1(2) sh_unquoted_plain [OF rest, of "[c]"]
    by (simp add: sh_words_def s sh_add_def)
qed

text \<open>
  C6. The round trip fails at the empty string: \<^verbatim>\<open>shell_quote("")\<close> is the empty string,
  which the shell parses as no word at all, not as the one word \<^verbatim>\<open>""\<close>. (For every
  non-empty string the round trip holds: \<open>shell_quote_roundtrip_nonempty\<close>.)
\<close>

theorem shell_quote_empty_is_no_word:
  "shell_quote [] = [] \<and> sh_words (shell_quote []) = Some [] \<and> sh_words (shell_quote []) \<noteq> Some [[]]"
  by (simp add: shell_quote_def sh_words_def sh_end_def)

subsection \<open>File names\<close>

lemma prepend_simps [simp]:
  "prepend x (Copied y) = Copied (x @ y)" "prepend x Rejected = Rejected"
  "prepend x Read_past_end = Read_past_end" "prepend x (prepend y r) = prepend (x @ y) r"
  "prepend [] r = r"
  by (simp_all add: prepend_def split: scan.split)

lemma components_not_Nil [simp]: "components s \<noteq> []"
  by (induction s) (auto split: list.split)

lemma components_Cons [simp]:
  "c \<noteq> CHR ''/'' \<Longrightarrow> components (c # s) = (c # hd (components s)) # tl (components s)"
  using components_not_Nil [of s] by (cases "components s") auto

lemma components_slash [simp]: "components (CHR ''/'' # s) = [] # components s"
  by simp

declare components.simps(2) [simp del]

lemma hd_components: "hd (components s) = takeWhile (\<lambda>x. x \<noteq> CHR ''/'') s"
  by (induction s) auto

lemma after_slash_dropWhile:
  "after_slash (components (dropWhile (\<lambda>x. x = CHR ''/'') s)) = after_slash (components s)"
  by (induction s) auto

lemma hd_components_Nil: "hd (components s) = [] \<longleftrightarrow> s = [] \<or> hd s = CHR ''/''"
  by (cases s) (auto simp: hd_components)

lemma hd_components_dot:
  "hd (components s) = ''.'' \<longleftrightarrow> s \<noteq> [] \<and> hd s = CHR ''.'' \<and> (tl s = [] \<or> hd (tl s) = CHR ''/'')"
proof (cases s)
  case Nil
  then show ?thesis by simp
next
  case (Cons c s1)
  then show ?thesis by (cases s1) (auto simp: hd_components)
qed

lemma dropWhile_slash_hd:
  "dropWhile (\<lambda>x. x = CHR ''/'') s = [] \<or> hd (dropWhile (\<lambda>x. x = CHR ''/'') s) \<noteq> CHR ''/''"
  using hd_dropWhile [of "\<lambda>x. x = CHR ''/''" s] by blast

lemma check_filename_loop_Nil: "check_filename_loop prev [] out = Copied out"
  by (simp add: check_filename_loop.simps [of prev "[]"])

lemma check_filename_loop_Cons:
  "check_filename_loop prev (c # s1) out =
    (if c = CHR ''.'' \<and> (s1 = [] \<or> hd s1 = CHR ''/'') \<and> prev = Some CHR ''/''
     then (case s1 of
             [] \<Rightarrow> Read_past_end
           | d # s2 \<Rightarrow>
               check_filename_loop (Some CHR ''/'') (dropWhile (\<lambda>x. x = CHR ''/'') s2) out)
     else if c = CHR ''.'' \<and> s1 \<noteq> [] \<and> hd s1 = CHR ''.''
             \<and> (tl s1 = [] \<or> hd (tl s1) = CHR ''/'')
             \<and> (prev = None \<or> prev = Some CHR ''/'')
     then Rejected
     else if c = CHR ''/''
     then check_filename_loop (Some CHR ''/'') (dropWhile (\<lambda>x. x = CHR ''/'') s1) (out @ [c])
     else check_filename_loop (Some c) s1 (out @ [c]))"
  by (simp add: check_filename_loop.simps [of prev "c # s1"])

lemma check_filename_loop_components:
  "(\<forall>p out. p \<noteq> CHR ''/'' \<longrightarrow>
      check_filename_loop (Some p) s out
        = prepend (out @ hd (components s)) (follow (tl (components s))))
   \<and> (\<forall>out. s = [] \<or> hd s \<noteq> CHR ''/'' \<longrightarrow>
      check_filename_loop (Some CHR ''/'') s out = prepend out (after_slash (components s)))"
proof (induction s rule: length_induct)
  case (1 s)
  show ?case
  proof (cases s)
    case Nil
    then show ?thesis by (simp add: check_filename_loop_Nil follow_def)
  next
    case (Cons c s1)
    have IH_mid: "check_filename_loop (Some p) s1 out
        = prepend (out @ hd (components s1)) (follow (tl (components s1)))"
      if "p \<noteq> CHR ''/''" for p out
      using 1 that by (simp add: Cons)
    have IH_start: "check_filename_loop (Some CHR ''/'') (dropWhile (\<lambda>x. x = CHR ''/'') r) out
        = prepend out (after_slash (components r))"
      if "length r < length s" for r out
    proof -
      have "length (dropWhile (\<lambda>x. x = CHR ''/'') r) < length s"
        using that length_dropWhile_le [of "\<lambda>x. x = CHR ''/''" r] by linarith
      with 1 have "\<forall>out. dropWhile (\<lambda>x. x = CHR ''/'') r = []
            \<or> hd (dropWhile (\<lambda>x. x = CHR ''/'') r) \<noteq> CHR ''/'' \<longrightarrow>
          check_filename_loop (Some CHR ''/'') (dropWhile (\<lambda>x. x = CHR ''/'') r) out
            = prepend out (after_slash (components (dropWhile (\<lambda>x. x = CHR ''/'') r)))"
        by blast
      then show ?thesis
        by (metis after_slash_dropWhile dropWhile_slash_hd)
    qed
    have mid: "check_filename_loop (Some p) s out
        = prepend (out @ hd (components s)) (follow (tl (components s)))"
      if p: "p \<noteq> CHR ''/''" for p out
    proof (cases "c = CHR ''/''")
      case True
      have "check_filename_loop (Some p) s out
          = check_filename_loop (Some CHR ''/'') (dropWhile (\<lambda>x. x = CHR ''/'') s1) (out @ [c])"
        using p True by (simp add: check_filename_loop_Cons check_filename_loop_Nil Cons)
      also have "\<dots> = prepend (out @ [c]) (after_slash (components s1))"
        by (rule IH_start) (simp add: Cons)
      finally show ?thesis using True by (simp add: Cons follow_def)
    next
      case False
      have "check_filename_loop (Some p) s out = check_filename_loop (Some c) s1 (out @ [c])"
        using p False by (simp add: check_filename_loop_Cons check_filename_loop_Nil Cons)
      also have "\<dots> = prepend ((out @ [c]) @ hd (components s1)) (follow (tl (components s1)))"
        using False by (rule IH_mid)
      finally show ?thesis using False by (simp add: Cons components_Cons)
    qed
    have start: "check_filename_loop (Some CHR ''/'') s out = prepend out (after_slash (components s))"
      if c: "c \<noteq> CHR ''/''" for out
    proof -
      have comps: "components s = (c # hd (components s1)) # tl (components s1)"
        using c by (simp add: Cons components_Cons)
      have e: "hd (components s1) = [] \<Longrightarrow> s1 = [] \<or> (\<exists>s2. s1 = CHR ''/'' # s2)"
        by (cases s1) (auto simp: hd_components_Nil)
      consider (dot_end) "c = CHR ''.''" "s1 = []"
        | (dot_slash) s2 where "c = CHR ''.''" "s1 = CHR ''/'' # s2"
        | (dotdot) "c = CHR ''.''" "hd (components s1) = ''.''"
        | (other) "c # hd (components s1) \<noteq> ''.''" "c # hd (components s1) \<noteq> ''..''"
        using e
        by (cases "c = CHR ''.''"; cases "hd (components s1) = []"; cases "hd (components s1) = ''.''")
           auto
      then show ?thesis
      proof cases
        case dot_end
        then show ?thesis by (simp add: check_filename_loop_Cons check_filename_loop_Nil Cons)
      next
        case dot_slash
        have "check_filename_loop (Some CHR ''/'') s out
            = check_filename_loop (Some CHR ''/'') (dropWhile (\<lambda>x. x = CHR ''/'') s2) out"
          using dot_slash by (simp add: check_filename_loop_Cons check_filename_loop_Nil Cons)
        also have "\<dots> = prepend out (after_slash (components s2))"
          by (rule IH_start) (simp add: Cons dot_slash)
        finally show ?thesis using dot_slash by (simp add: Cons)
      next
        case dotdot
        then have s1: "s1 \<noteq> []" "hd s1 = CHR ''.''" "tl s1 = [] \<or> hd (tl s1) = CHR ''/''"
          by (simp_all add: hd_components_dot)
        then have "check_filename_loop (Some CHR ''/'') s out = Rejected"
          using dotdot(1) by (auto simp: check_filename_loop_Cons Cons)
        then show ?thesis using dotdot by (simp add: comps)
      next
        case other
        have n1: "\<not> (c = CHR ''.'' \<and> (s1 = [] \<or> hd s1 = CHR ''/''))"
          using other(1) by (auto simp: hd_components_Nil)
        have n2: "\<not> (c = CHR ''.'' \<and> s1 \<noteq> [] \<and> hd s1 = CHR ''.''
                 \<and> (tl s1 = [] \<or> hd (tl s1) = CHR ''/''))"
          using other(2) hd_components_dot [of s1] by auto
        have "check_filename_loop (Some CHR ''/'') s out = check_filename_loop (Some c) s1 (out @ [c])"
          unfolding Cons check_filename_loop_Cons using n1 n2 c by (simp only: if_False simp_thms)
        also have "\<dots> = prepend ((out @ [c]) @ hd (components s1)) (follow (tl (components s1)))"
          using c by (rule IH_mid)
        finally show ?thesis using other by (auto simp: comps follow_def)
      qed
    qed
    from mid start show ?thesis by (auto simp: Cons)
  qed
qed


lemma check_filename_loop_start:
  assumes "s \<noteq> []"
  shows "check_filename_loop None s [] =
    (if hd (components s) = ''..'' then Rejected
     else prepend (hd (components s)) (follow (tl (components s))))"
proof -
  obtain c s1 where s: "s = c # s1" using assms by (cases s) auto
  note mid = check_filename_loop_components [of s1, THEN conjunct1, rule_format]
  show ?thesis
  proof (cases "c = CHR ''/''")
    case True
    have "check_filename_loop None s []
        = check_filename_loop (Some CHR ''/'') (dropWhile (\<lambda>x. x = CHR ''/'') s1) ''/''"
      using True by (simp add: s check_filename_loop_Cons)
    also have "\<dots> = prepend ''/'' (after_slash (components (dropWhile (\<lambda>x. x = CHR ''/'') s1)))"
      using check_filename_loop_components [of "dropWhile (\<lambda>x. x = CHR ''/'') s1", THEN conjunct2]
        dropWhile_slash_hd [of s1] by blast
    finally show ?thesis using True by (simp add: s follow_def after_slash_dropWhile)
  next
    case False
    then have comps: "components s = (c # hd (components s1)) # tl (components s1)"
      by (simp add: s)
    show ?thesis
    proof (cases "c = CHR ''.'' \<and> hd (components s1) = ''.''")
      case True
      then have "s1 \<noteq> []" "hd s1 = CHR ''.''" "tl s1 = [] \<or> hd (tl s1) = CHR ''/''"
        by (simp_all add: hd_components_dot)
      then have "check_filename_loop None s [] = Rejected"
        using True by (auto simp: s check_filename_loop_Cons)
      then show ?thesis using True by (simp add: comps)
    next
      case nd: False
      then have n2: "\<not> (c = CHR ''.'' \<and> s1 \<noteq> [] \<and> hd s1 = CHR ''.''
                 \<and> (tl s1 = [] \<or> hd (tl s1) = CHR ''/''))"
        using hd_components_dot [of s1] by auto
      have "check_filename_loop None s [] = check_filename_loop (Some c) s1 [c]"
        unfolding s check_filename_loop_Cons using n2 False by auto
      also have "\<dots> = prepend ([c] @ hd (components s1)) (follow (tl (components s1)))"
        using False by (rule mid)
      finally show ?thesis using nd by (auto simp: comps)
    qed
  qed
qed

lemma prepend_eq [simp]:
  "prepend x r = Rejected \<longleftrightarrow> r = Rejected"
  "prepend x r = Read_past_end \<longleftrightarrow> r = Read_past_end"
  by (cases r; simp)+

lemma after_slash_Rejected: "after_slash ws = Rejected \<longleftrightarrow> ''..'' \<in> set ws"
  by (induction ws) auto

lemma after_slash_past_end:
  "''..'' \<notin> set ws \<Longrightarrow> after_slash ws = Read_past_end \<longleftrightarrow> ws \<noteq> [] \<and> last ws = ''.''"
  by (induction ws) auto

lemma after_slash_Copied:
  assumes "''..'' \<notin> set ws" "ws = [] \<or> last ws \<noteq> ''.''"
  shows "after_slash ws =
    Copied (join_slash (kept ws) @ (if kept ws \<noteq> [] \<and> last ws = [] then ''/'' else []))"
  using assms
proof (induction ws)
  case Nil
  then show ?case by (simp add: kept_def)
next
  case (Cons w ws)
  then have IH: "after_slash ws =
      Copied (join_slash (kept ws) @ (if kept ws \<noteq> [] \<and> last ws = [] then ''/'' else []))"
    if "ws \<noteq> []" using that by auto
  show ?case
  proof (cases "ws = []")
    case True
    with Cons.prems show ?thesis by (auto simp: kept_def)
  next
    case False
    note IH = IH [OF False]
    have k: "kept (w # ws) = (if w \<noteq> [] \<and> w \<noteq> ''.'' then w # kept ws else kept ws)"
      by (simp add: kept_def)
    have j: "join_slash (w # kept ws) = (if kept ws = [] then w else w @ ''/'' @ join_slash (kept ws))"
      by (cases "kept ws") simp_all
    have kl: "kept ws = [] \<Longrightarrow> last ws = []"
    proof -
      assume "kept ws = []"
      moreover have "last ws \<in> set ws" using False by simp
      ultimately have "last ws = [] \<or> last ws = ''.''"
        unfolding kept_def filter_empty_conv by blast
      with Cons.prems(2) False show ?thesis by simp
    qed
    show ?thesis
      using Cons.prems False kl by (auto simp: IH k j)
  qed
qed


lemma strip_slashes_id: "x = [] \<or> last x \<noteq> CHR ''/'' \<Longrightarrow> strip_slashes x = x"
  by (subst strip_slashes.simps) auto

lemma strip_slashes_slash: "strip_slashes ''/'' = ''/''"
  by (subst strip_slashes.simps) simp

lemma strip_slashes_snoc: "x \<noteq> [] \<Longrightarrow> strip_slashes (x @ ''/'') = strip_slashes x"
  by (subst strip_slashes.simps) simp

lemma components_no_slash: "w \<in> set (components s) \<Longrightarrow> CHR ''/'' \<notin> set w"
proof (induction s arbitrary: w)
  case Nil
  then show ?case by simp
next
  case (Cons c s)
  show ?case
  proof (cases "c = CHR ''/''")
    case True
    with Cons show ?thesis by auto
  next
    case False
    have "hd (components s) \<in> set (components s)" by simp
    moreover have "set (tl (components s)) \<subseteq> set (components s)"
      by (simp add: list.set_sel(2) subsetI)
    ultimately show ?thesis using Cons False by auto
  qed
qed

lemma join_slash_last:
  "ws \<noteq> [] \<Longrightarrow> \<forall>w \<in> set ws. w \<noteq> [] \<and> CHR ''/'' \<notin> set w \<Longrightarrow>
   join_slash ws \<noteq> [] \<and> last (join_slash ws) \<noteq> CHR ''/''"
proof (induction ws rule: join_slash.induct)
  case 1
  then show ?case by simp
next
  case (2 w)
  then have "w \<noteq> []" "CHR ''/'' \<notin> set w" by simp_all
  then show ?case by (metis join_slash.simps(2) last_in_set)
next
  case (3 w v ws)
  then show ?case by simp
qed

lemma join_slash_Cons:
  "join_slash (w # ws) = (if ws = [] then w else w @ ''/'' @ join_slash ws)"
  by (cases ws) simp_all

lemma components_join: "join_slash (components s) = s"
proof (induction s)
  case Nil
  show ?case by simp
next
  case (Cons c s)
  have "join_slash (hd (components s) # tl (components s)) = s" using Cons by simp
  then have "(if tl (components s) = [] then hd (components s)
              else hd (components s) @ ''/'' @ join_slash (tl (components s))) = s"
    by (simp only: join_slash_Cons)
  then show ?case by (cases "c = CHR ''/''") (auto simp: join_slash_Cons Cons split: if_splits)
qed

lemma scan_of_name:
  assumes "s \<noteq> []"
  shows "check_filename_loop None s [] = Rejected \<longleftrightarrow> has_dotdot s"
    and "check_filename_loop None s [] = Read_past_end \<longleftrightarrow> \<not> has_dotdot s \<and> ends_in_dot s"
    and "\<not> has_dotdot s \<Longrightarrow> \<not> ends_in_dot s \<Longrightarrow>
         \<exists>out. check_filename_loop None s [] = Copied out \<and> strip_slashes out = collapse s
               \<and> collapse s \<noteq> []"
proof -
  define w0 where "w0 = hd (components s)"
  define ws where "ws = tl (components s)"
  have comps: "components s = w0 # ws" by (simp add: w0_def ws_def)
  have loop: "check_filename_loop None s [] =
      (if w0 = ''..'' then Rejected else prepend w0 (follow ws))"
    unfolding w0_def ws_def using assms by (rule check_filename_loop_start)
  have dd: "has_dotdot s \<longleftrightarrow> w0 = ''..'' \<or> ''..'' \<in> set ws"
    by (auto simp: has_dotdot_def comps)
  have ed: "ends_in_dot s \<longleftrightarrow> ws \<noteq> [] \<and> last ws = ''.''"
    by (auto simp: ends_in_dot_def comps)
  show "check_filename_loop None s [] = Rejected \<longleftrightarrow> has_dotdot s"
    by (auto simp: loop dd follow_def after_slash_Rejected)
  show "check_filename_loop None s [] = Read_past_end \<longleftrightarrow> \<not> has_dotdot s \<and> ends_in_dot s"
  proof (cases "w0 = ''..'' \<or> ''..'' \<in> set ws")
    case True
    then have "w0 = ''..'' \<or> after_slash ws = Rejected" by (simp add: after_slash_Rejected)
    with True show ?thesis by (auto simp: loop dd follow_def)
  next
    case False
    then have "after_slash ws = Read_past_end \<longleftrightarrow> ws \<noteq> [] \<and> last ws = ''.''"
      by (simp add: after_slash_past_end)
    with False show ?thesis by (auto simp: loop dd ed follow_def)
  qed
  show "\<exists>out. check_filename_loop None s [] = Copied out \<and> strip_slashes out = collapse s
               \<and> collapse s \<noteq> []"
    if nd: "\<not> has_dotdot s" and ne: "\<not> ends_in_dot s"
  proof -
    from nd have w0: "w0 \<noteq> ''..''" and nws: "''..'' \<notin> set ws" by (simp_all add: dd)
    from ne have lw: "ws = [] \<or> last ws \<noteq> ''.''" by (auto simp: ed)
    have w0_slash: "CHR ''/'' \<notin> set w0"
      using components_no_slash [of w0 s] by (simp add: comps)
    have "w0 = [] \<or> last w0 \<noteq> CHR ''/''"
    proof (cases "w0 = []")
      case True
      then show ?thesis by simp
    next
      case False
      then have "last w0 \<in> set w0" by (rule last_in_set)
      with w0_slash show ?thesis by auto
    qed
    then have w0_strip: "strip_slashes w0 = w0" by (rule strip_slashes_id)
    have col: "collapse s = (if w0 = [] then ''/'' @ join_slash (kept ws) else join_slash (w0 # kept ws))"
      by (simp add: collapse_def comps)
    have kept_ok: "\<forall>w \<in> set (kept ws). w \<noteq> [] \<and> CHR ''/'' \<notin> set w"
      using components_no_slash [of _ s] by (auto simp: kept_def comps)
    show ?thesis
    proof (cases "ws = []")
      case True
      then have "s = w0" using components_join [of s] by (simp add: comps)
      with assms have "w0 \<noteq> []" by simp
      with True w0 w0_strip show ?thesis by (simp add: loop follow_def col kept_def)
    next
      case False
      let ?J = "join_slash (kept ws)"
      have as: "after_slash ws = Copied (?J @ (if kept ws \<noteq> [] \<and> last ws = [] then ''/'' else []))"
        using nws lw by (rule after_slash_Copied)
      have out: "check_filename_loop None s [] =
          Copied (w0 @ ''/'' @ ?J @ (if kept ws \<noteq> [] \<and> last ws = [] then ''/'' else []))"
        using w0 False by (simp add: loop follow_def as)
      show ?thesis
      proof (cases "kept ws = []")
        case True
        have "strip_slashes (w0 @ ''/'') = collapse s \<and> collapse s \<noteq> []"
        proof (cases "w0 = []")
          case True
          with \<open>kept ws = []\<close> show ?thesis by (simp add: col strip_slashes_slash)
        next
          case False
          with \<open>kept ws = []\<close> w0_strip show ?thesis by (simp add: col strip_slashes_snoc)
        qed
        with True out show ?thesis by simp
      next
        case kne: False
        from join_slash_last [OF kne kept_ok] have J: "?J \<noteq> []" "last ?J \<noteq> CHR ''/''" by simp_all
        have base: "strip_slashes (w0 @ ''/'' @ ?J) = w0 @ ''/'' @ ?J"
          using J by (intro strip_slashes_id) simp
        have "strip_slashes ((w0 @ ''/'' @ ?J) @ ''/'') = w0 @ ''/'' @ ?J"
          using base by (subst strip_slashes_snoc) simp_all
        with base have "strip_slashes (w0 @ ''/'' @ ?J @ (if kept ws \<noteq> [] \<and> last ws = [] then ''/'' else []))
            = w0 @ ''/'' @ ?J" by simp
        moreover have "collapse s = w0 @ ''/'' @ ?J"
          using kne by (simp add: col join_slash_Cons)
        ultimately show ?thesis using out by simp
      qed
    qed
  qed
qed

lemma takeWhile_all: "length (takeWhile P xs) \<noteq> length xs \<longleftrightarrow> \<not> list_all P xs"
proof -
  have "length (takeWhile P xs) + length (dropWhile P xs) = length xs"
    by (metis length_append takeWhile_dropWhile_id)
  then have "length (takeWhile P xs) = length xs \<longleftrightarrow> length (dropWhile P xs) = 0" by linarith
  also have "\<dots> \<longleftrightarrow> list_all P xs" by (simp add: dropWhile_eq_Nil_conv list_all_iff)
  finally show ?thesis by simp
qed

text \<open>
  C5, amended. \<^verbatim>\<open>check_filename\<close> returns the empty string for exactly the names that are
  empty, that hold a byte outside the allowlist \<^verbatim>\<open>/0-9A-Za-z-._~\<close> (the space is not in
  it), that begin with \<^verbatim>\<open>~\<close>, that are 1024 bytes or longer, or that hold a \<^verbatim>\<open>..\<close>
  component. Every other name that does not end in a \<^verbatim>\<open>.\<close> component behind a slash is
  accepted with its later \<^verbatim>\<open>.\<close> components, doubled slashes and trailing slashes collapsed
  (a \<^verbatim>\<open>.\<close> as first component stays), and the result is not empty.
\<close>

theorem check_filename_rejects_and_collapses:
  "(check_filename name' = Some [] \<longleftrightarrow>
      name' = [] \<or> \<not> list_all allowed_char name' \<or> hd name' = CHR ''~''
      \<or> 1024 \<le> length name' \<or> has_dotdot name')
   \<and> (name' \<noteq> [] \<and> list_all allowed_char name' \<and> hd name' \<noteq> CHR ''~''
       \<and> length name' < 1024 \<and> \<not> has_dotdot name' \<and> \<not> ends_in_dot name' \<longrightarrow>
       check_filename name' = Some (collapse name') \<and> collapse name' \<noteq> [])"
proof (cases "name' = [] \<or> \<not> list_all allowed_char name' \<or> hd name' = CHR ''~''
      \<or> 1024 \<le> length name'")
  case True
  then show ?thesis by (auto simp: check_filename_def takeWhile_all)
next
  case False
  then have ne: "name' \<noteq> []" by simp
  from False have cf: "check_filename name' =
      (case check_filename_loop None name' [] of
         Copied out \<Rightarrow> Some (strip_slashes out) | Rejected \<Rightarrow> Some [] | Read_past_end \<Rightarrow> None)"
    by (auto simp: check_filename_def takeWhile_all)
  note sc = scan_of_name [OF ne]
  show ?thesis
  proof (cases "has_dotdot name'")
    case True
    with sc(1) cf False show ?thesis by simp
  next
    case nd: False
    show ?thesis
    proof (cases "ends_in_dot name'")
      case True
      with sc(2) nd cf False show ?thesis by simp
    next
      case ne: False
      from sc(3) [OF nd ne] obtain out where
        "check_filename_loop None name' [] = Copied out" "strip_slashes out = collapse name'"
        "collapse name' \<noteq> []" by blast
      with cf False nd show ?thesis by simp
    qed
  qed
qed

text \<open>
  The names left out above: behind a \<^verbatim>\<open>.\<close> component that ends the name and follows a slash
  the loop reads past the end of the string.
\<close>

lemma check_filename_reads_past_end:
  "name' \<noteq> [] \<Longrightarrow> list_all allowed_char name' \<Longrightarrow> hd name' \<noteq> CHR ''~'' \<Longrightarrow>
   length name' < 1024 \<Longrightarrow> \<not> has_dotdot name' \<Longrightarrow> ends_in_dot name' \<Longrightarrow>
   check_filename name' = None"
  using scan_of_name(2) [of name'] by (auto simp: check_filename_def takeWhile_all)


text \<open>
  C5, as the specification states it, fails: the name \<^verbatim>\<open>a b\<close> is made of bytes of the
  allowlist that the specification gives (with the space), does not begin with \<^verbatim>\<open>~\<close> and
  has no \<^verbatim>\<open>..\<close> component, and \<^verbatim>\<open>check_filename\<close> refuses it.
\<close>

theorem check_filename_space_refused:
  "list_all spec_allowed_char ''a b'' \<and> hd ''a b'' \<noteq> CHR ''~'' \<and> \<not> has_dotdot ''a b''
   \<and> check_filename ''a b'' = Some []"
  by code_simp

theorem check_filename_rejects_and_collapses_witness:
  "check_filename ''/jails//run/./x/'' = Some ''/jails/run/x''
   \<and> check_filename ''/jails/../etc'' = Some []"
proof -
  have a: "list_all allowed_char ''/jails//run/./x/''" "\<not> has_dotdot ''/jails//run/./x/''"
    "\<not> ends_in_dot ''/jails//run/./x/''" "collapse ''/jails//run/./x/'' = ''/jails/run/x''"
    by code_simp+
  have b: "has_dotdot ''/jails/../etc''" by code_simp
  show ?thesis
    using check_filename_rejects_and_collapses [of "''/jails//run/./x/''"]
      check_filename_rejects_and_collapses [of "''/jails/../etc''"] a b
    by simp
qed


section \<open>Properties of the policy file\<close>

text \<open>
  C7. A policy file of exactly 8192 bytes, owned by root with mode 0644 (\<open>st_mode\<close> octal 100644, hexadecimal 81A4), is refused as
  too big, with a message that gives 8192 bytes as the maximum.
\<close>

theorem pajailconf_8192_bytes_too_big:
  "pajailconf_new
     (Some \<lparr>file_stat = Some \<lparr>st_uid = 0, st_gid = 0, st_mode = 0x81A4\<rparr>,
            file_bytes = Some (replicate 8192 (CHR ''#''))\<rparr>)
   = Inl (TooBig 8192)"
  by (simp add: pajailconf_new_def writable_only_by_root_def ROOT_def S_IWGRP_def S_IWOTH_def
      sizeof_buf_def)

text \<open>The sizes that the constructor accepts are those from 1 to 8191 bytes.\<close>

lemma pajailconf_new_accepts:
  assumes "writable_only_by_root st" "0 < length bytes" "length bytes < 8192"
  shows "pajailconf_new (Some \<lparr>file_stat = Some st, file_bytes = Some bytes\<rparr>) = Inr bytes"
  using assms by (simp add: pajailconf_new_def sizeof_buf_def Let_def)

lemma pajailconf_new_too_big:
  assumes "writable_only_by_root st" "8192 \<le> length bytes"
  shows "pajailconf_new (Some \<lparr>file_stat = Some st, file_bytes = Some bytes\<rparr>) = Inl (TooBig 8192)"
  using assms by (simp add: pajailconf_new_def sizeof_buf_def Let_def)

subsection \<open>Evaluation of the rules\<close>

lemma set_treedir_allowed [simp]:
  "allowed_globally (set_treedir fnm p s e st) = allowed_globally st"
  "allowed_locally (set_treedir fnm p s e st) = allowed_locally st"
  by (simp_all add: set_treedir_def Let_def split: option.split)

lemma policy_rule_globally:
  "allowed_globally (policy_rule fnm type' dir superdir action arg st) =
     (case global_rule type' (action, arg) of None \<Rightarrow> allowed_globally st | Some a \<Rightarrow> a)"
  by (simp add: policy_rule_def allowance_def global_rule_def rule_allowed_def Let_def)

lemma policy_rule_locally:
  "allowed_locally (policy_rule fnm type' dir superdir action arg st) =
     (case local_rule fnm type' dir superdir (action, arg) of None \<Rightarrow> allowed_locally st | Some a \<Rightarrow> a)"
  by (simp add: policy_rule_def allowance_def local_rule_def rule_allowed_def Let_def)

lemma allows_loop_foldl:
  "allows_loop fnm type' dir superdir rest st =
     foldl (\<lambda>st line. policy_rule fnm type' dir superdir (fst line) (snd line) st) st (policy_lines rest)"
proof (induction fnm type' dir superdir rest st rule: allows_loop.induct)
  case (1 fnm type' dir superdir rest st)
  have a: "allows_loop fnm type' dir superdir rest st =
    (if rest = [] then st
     else allows_loop fnm type' dir superdir (snd (snd (take_line rest)))
            (policy_rule fnm type' dir superdir (fst (take_line rest)) (fst (snd (take_line rest))) st))"
    by (rule allows_loop.simps)
  have p: "policy_lines rest =
    (if rest = [] then []
     else (fst (take_line rest), fst (snd (take_line rest))) # policy_lines (snd (snd (take_line rest))))"
    by (rule policy_lines.simps)
  show ?case unfolding a p using 1 by simp
qed

lemma foldl_policy_bits:
  "allowed_globally (foldl (\<lambda>st line. policy_rule fnm type' dir superdir (fst line) (snd line) st) st rules)
     = last_or (allowed_globally st) (List.map_filter (global_rule type') rules)
   \<and> allowed_locally (foldl (\<lambda>st line. policy_rule fnm type' dir superdir (fst line) (snd line) st) st rules)
     = last_or (allowed_locally st) (List.map_filter (local_rule fnm type' dir superdir) rules)"
proof (induction rules rule: rev_induct)
  case Nil
  then show ?case by (simp add: last_or_def List.map_filter_def)
next
  case (snoc line rules)
  then show ?case
    by (cases line)
       (simp add: policy_rule_globally policy_rule_locally last_or_def List.map_filter_def
          split: option.split)
qed

text \<open>
  C1, as the specification states it, fails. Both patterns \<^verbatim>\<open>/jails/run\<close> and \<^verbatim>\<open>/jails\<close>
  match the directory \<^verbatim>\<open>/jails/run\<close> (the second as a leading part, as a disabling rule
  does). If the most specific pattern decided, both orders of the two rules would give
  the same answer; the code refuses the directory when the \<^verbatim>\<open>disablejail\<close> line comes
  last and allows it when the \<^verbatim>\<open>enablejail\<close> line comes last.
\<close>

theorem allow_jail_depends_on_rule_order:
  "check_dirmatch fnmatch_literal ''/jails/run/'' ''/jails/run/'' False
   \<and> check_dirmatch fnmatch_literal ''/jails/'' ''/jails/run/'' True
   \<and> \<not> fst (allows_type fnmatch_literal policy_enable_then_disable ''jail'' ''/jails/run'' False)
   \<and> fst (allows_type fnmatch_literal policy_disable_then_enable ''jail'' ''/jails/run'' False)"
  by code_simp

text \<open>
  C1, amended. For every policy text, directory and \<^verbatim>\<open>fnmatch\<close>: the global allow bit is
  the value of the last global (pattern-less) rule, \<open>-1\<close> if there is none; the local
  allow bit is the value of the textually last rule among the subdirectory-pattern rules
  that match the directory and the global disabling rules, \<open>-1\<close> if there is none; and
  the directory is allowed exactly if the global bit is not 0 and the local bit is
  positive (that is 1, the value of an enabling rule).
\<close>

theorem allows_type_last_rule_wins:
  "allowed_globally (snd (allows_type fnm conf type' dir superdir)) =
     last_or (- 1) (List.map_filter (global_rule type') (policy_lines conf))
   \<and> allowed_locally (snd (allows_type fnm conf type' dir superdir)) =
     last_or (- 1) (List.map_filter (local_rule fnm type' (path_endslash dir) superdir)
                      (policy_lines conf))
   \<and> fst (allows_type fnm conf type' dir superdir) =
     (last_or (- 1) (List.map_filter (global_rule type') (policy_lines conf)) \<noteq> 0
      \<and> last_or (- 1) (List.map_filter (local_rule fnm type' (path_endslash dir) superdir)
                          (policy_lines conf)) > 0)"
  by (simp add: allows_type_def Let_def allows_loop_foldl foldl_policy_bits)

theorem allows_type_last_rule_wins_witness:
  "\<not> fst (allows_type fnmatch_literal policy_enable_then_disable ''jail'' ''/jails/run'' False)
   \<and> allowed_locally (snd (allows_type fnmatch_literal policy_enable_then_disable ''jail''
        ''/jails/run'' False)) = 0
   \<and> allowed_globally (snd (allows_type fnmatch_literal policy_enable_then_disable ''jail''
        ''/jails/run'' False)) = - 1"
proof -
  have ev: "List.map_filter (local_rule fnmatch_literal ''jail'' (path_endslash ''/jails/run'') False)
              (policy_lines policy_enable_then_disable) = [1, 0]"
    "List.map_filter (global_rule ''jail'') (policy_lines policy_enable_then_disable) = []"
    by code_simp+
  show ?thesis
    using allows_type_last_rule_wins [of fnmatch_literal policy_enable_then_disable "''jail''"
        "''/jails/run''" False]
    unfolding ev by (simp add: last_or_def)
qed

section \<open>Properties of the byte buffer\<close>

lemma reserve_loop_returns:
  "0 < ncap \<Longrightarrow> \<exists>r. reserve_loop need ncap = Some r \<and> need \<le> r \<and> ncap \<le> r"
proof (induction "need - ncap" arbitrary: ncap rule: less_induct)
  case less
  show ?case
  proof (cases "need > ncap")
    case False
    then show ?thesis by (subst reserve_loop.simps) simp
  next
    case True
    let ?n = "min (ncap * 2) (ncap + 131072)"
    have gt: "ncap < ?n" using less.prems by simp
    with True have "need - ?n < need - ncap" by linarith
    from less.hyps [OF this] gt less.prems
    obtain r where "reserve_loop need ?n = Some r" "need \<le> r" "?n \<le> r" by auto
    with True gt show ?thesis by (subst reserve_loop.simps) auto
  qed
qed

lemma take_drop_update:
  assumes "t < length xs" "h \<le> t"
  shows "take (Suc t - h) (drop h (xs[t := c])) = take (t - h) (drop h xs) @ [c]"
proof -
  have "xs[t := c] = take t xs @ c # drop (Suc t) xs"
    using assms(1) by (rule upd_conv_take_nth_drop)
  moreover have "drop h (take t xs @ c # drop (Suc t) xs) = drop h (take t xs) @ c # drop (Suc t) xs"
    using assms by simp
  moreover have "length (drop h (take t xs)) = t - h" using assms by simp
  ultimately have "take (Suc t - h) (drop h (xs[t := c])) = drop h (take t xs) @ [c]"
    using assms(2) by (simp add: Suc_diff_le)
  then show ?thesis by (simp add: drop_take)
qed

lemma reserve_inv:
  assumes "jbuffer_inv b"
  shows "\<exists>b'. reserve n b = Some b' \<and> jbuffer_inv b' \<and> head b' = head b \<and> tail b' = tail b
           \<and> bufpos b' = bufpos b \<and> contents b' = contents b
           \<and> tail b + (if n = 0 then min (cap b) 131072 else n) \<le> cap b'"
proof -
  let ?n = "if n = 0 then min (cap b) 131072 else n"
  from assms have cap: "0 < cap b" by (simp add: jbuffer_inv_def)
  from reserve_loop_returns [OF cap, of "tail b + ?n"]
  obtain r where r: "reserve_loop (tail b + ?n) (cap b) = Some r" "tail b + ?n \<le> r" "cap b \<le> r"
    by auto
  have "reserve n b = Some (b\<lparr>buf := take (tail b) (buf b) @ replicate (r - tail b) 0, cap := r\<rparr>)"
    using r(1) by (simp add: reserve_def)
  moreover have "jbuffer_inv (b\<lparr>buf := take (tail b) (buf b) @ replicate (r - tail b) 0, cap := r\<rparr>)"
    using assms r(2,3) by (simp add: jbuffer_inv_def)
  moreover have "contents (b\<lparr>buf := take (tail b) (buf b) @ replicate (r - tail b) 0, cap := r\<rparr>) = contents b"
  proof -
    have ht: "head b \<le> tail b" and tl: "tail b \<le> length (buf b)"
      using assms by (simp_all add: jbuffer_inv_def)
    have "drop (head b) (take (tail b) (buf b) @ replicate (r - tail b) 0)
        = drop (head b) (take (tail b) (buf b)) @ replicate (r - tail b) 0"
      using ht tl by simp
    moreover have "length (drop (head b) (take (tail b) (buf b))) = tail b - head b"
      using tl by simp
    ultimately have "take (tail b - head b) (drop (head b) (take (tail b) (buf b) @ replicate (r - tail b) 0))
        = drop (head b) (take (tail b) (buf b))" by simp
    then show ?thesis by (simp add: contents_def drop_take)
  qed
  ultimately show ?thesis using r(2) by simp
qed

lemma append_char_inv:
  assumes "jbuffer_inv b"
  shows "\<exists>b'. append_char ch b = Some b' \<and> jbuffer_inv b' \<and> head b' = head b
           \<and> tail b' = tail b + 1 \<and> bufpos b' = bufpos b \<and> contents b' = contents b @ [ch]"
proof -
  obtain b1 where b1: "(if tail b = cap b then reserve 0 b else Some b) = Some b1"
    "jbuffer_inv b1" "head b1 = head b" "tail b1 = tail b" "bufpos b1 = bufpos b"
    "contents b1 = contents b" "tail b1 < cap b1"
  proof (cases "tail b = cap b")
    case True
    from reserve_inv [OF assms, of 0] obtain b' where
      "reserve 0 b = Some b'" "jbuffer_inv b'" "head b' = head b" "tail b' = tail b"
      "bufpos b' = bufpos b" "contents b' = contents b" "tail b + min (cap b) 131072 \<le> cap b'"
      by auto
    moreover have "0 < min (cap b) 131072" using assms by (simp add: jbuffer_inv_def)
    ultimately show ?thesis using True that [of b'] by simp
  next
    case False
    with assms have "tail b < cap b" by (simp add: jbuffer_inv_def)
    with False assms show ?thesis using that [of b] by simp
  qed
  have "append_char ch b = Some (b1\<lparr>buf := (buf b1)[tail b1 := ch], tail := tail b1 + 1\<rparr>)"
    using b1(1,7) by (simp add: append_char_def)
  moreover have "jbuffer_inv (b1\<lparr>buf := (buf b1)[tail b1 := ch], tail := tail b1 + 1\<rparr>)"
    using b1(2,7) by (simp add: jbuffer_inv_def)
  moreover have "contents (b1\<lparr>buf := (buf b1)[tail b1 := ch], tail := tail b1 + 1\<rparr>) = contents b1 @ [ch]"
  proof -
    have len: "length (buf b1) = cap b1" and ht: "head b1 \<le> tail b1"
      using b1(2) by (simp_all add: jbuffer_inv_def)
    have "take (Suc (tail b1) - head b1) (drop (head b1) ((buf b1)[tail b1 := ch]))
        = take (tail b1 - head b1) (drop (head b1) (buf b1)) @ [ch]"
      using len ht b1(7) by (rule_tac take_drop_update) simp_all
    then show ?thesis by (simp add: contents_def)
  qed
  ultimately show ?thesis using b1 by simp
qed

lemma append_inv:
  assumes "jbuffer_inv b"
  shows "\<exists>b'. append bytes b = Some b' \<and> jbuffer_inv b' \<and> head b' = head b
           \<and> tail b' = tail b + length bytes \<and> bufpos b' = bufpos b
           \<and> contents b' = contents b @ bytes"
proof -
  let ?n = "length bytes"
  obtain b1 where b1: "(if cap b - tail b < ?n then reserve ?n b else Some b) = Some b1"
    "jbuffer_inv b1" "head b1 = head b" "tail b1 = tail b" "bufpos b1 = bufpos b"
    "contents b1 = contents b" "tail b1 + ?n \<le> cap b1"
  proof (cases "cap b - tail b < ?n")
    case True
    then have n: "?n \<noteq> 0" by (cases bytes) simp_all
    from reserve_inv [OF assms, of ?n] n obtain b' where
      "reserve ?n b = Some b'" "jbuffer_inv b'" "head b' = head b" "tail b' = tail b"
      "bufpos b' = bufpos b" "contents b' = contents b" "tail b + ?n \<le> cap b'"
      by auto
    then show ?thesis using True that [of b'] by simp
  next
    case False
    moreover have "tail b \<le> cap b" using assms by (simp add: jbuffer_inv_def)
    ultimately have "tail b + ?n \<le> cap b" by linarith
    with False assms show ?thesis using that [of b] by simp
  qed
  let ?b' = "b1\<lparr>buf := take (tail b1) (buf b1) @ bytes @ drop (tail b1 + ?n) (buf b1),
                tail := tail b1 + ?n\<rparr>"
  have "append bytes b = Some ?b'"
    using b1(1) by (simp add: append_def Let_def)
  moreover have "jbuffer_inv ?b'"
    using b1(2,7) by (simp add: jbuffer_inv_def)
  moreover have "contents ?b' = contents b1 @ bytes"
  proof -
    have ht: "head b1 \<le> tail b1" and tl: "tail b1 \<le> length (buf b1)"
      using b1(2) by (simp_all add: jbuffer_inv_def)
    have "drop (head b1) (take (tail b1) (buf b1) @ bytes @ drop (tail b1 + ?n) (buf b1))
        = drop (head b1) (take (tail b1) (buf b1)) @ bytes @ drop (tail b1 + ?n) (buf b1)"
      using ht tl by simp
    moreover have "length (drop (head b1) (take (tail b1) (buf b1)) @ bytes) = tail b1 + ?n - head b1"
      using ht tl by simp
    ultimately have "take (tail b1 + ?n - head b1)
        (drop (head b1) (take (tail b1) (buf b1) @ bytes @ drop (tail b1 + ?n) (buf b1)))
        = drop (head b1) (take (tail b1) (buf b1)) @ bytes"
      by (metis append.assoc append_eq_conv_conj)
    then show ?thesis by (simp add: contents_def drop_take)
  qed
  ultimately show ?thesis using b1 by simp
qed

lemma jread_inv:
  assumes "jbuffer_inv b"
  shows "jbuffer_inv (snd (jread from r b))"
proof -
  have tc: "tail b \<le> cap b" and len: "length (buf b) = cap b"
    using assms by (simp_all add: jbuffer_inv_def)
  have "jbuffer_inv (b\<lparr>buf := take (tail b) (buf b) @ take (cap b - tail b) offered
            @ drop (tail b + length (take (cap b - tail b) offered)) (buf b),
          tail := tail b + length (take (cap b - tail b) offered)\<rparr>)" for offered
    using assms tc len by (auto simp: jbuffer_inv_def min_def)
  moreover have "jbuffer_inv (b\<lparr>rclosed := True\<rparr>)" "jbuffer_inv (b\<lparr>rclosed := True, rerrno := e\<rparr>)" for e
    using assms by (simp_all add: jbuffer_inv_def)
  ultimately show ?thesis
    using assms by (simp add: jread_def Let_def split: read_result.split)
qed

lemma jwrite_inv:
  assumes "jbuffer_inv b" "bufpos b + head b \<le> off" "off \<le> bufpos b + tail b"
  shows "\<exists>any off' b'. jwrite to off r b = Some (any, off', b') \<and> jbuffer_inv b'
           \<and> off \<le> off' \<and> off' \<le> bufpos b' + tail b'
           \<and> head b' = head b \<and> tail b' = tail b \<and> bufpos b' = bufpos b \<and> buf b' = buf b"
proof -
  have w: "jbuffer_inv (b\<lparr>wclosed := True\<rparr>)" using assms(1) by (simp add: jbuffer_inv_def)
  show ?thesis
    using assms w by (auto simp: jwrite_def Let_def split: option.split)
qed

lemma compact_preserves:
  assumes "head b \<le> tail b" "tail b \<le> length (buf b)"
  shows "bufpos (compact b) + head (compact b) = bufpos b + head b"
    and "bufpos (compact b) + tail (compact b) = bufpos b + tail b"
    and "contents (compact b) = contents b"
    and "length (buf (compact b)) = length (buf b)"
    and "head (compact b) = 0" and "cap (compact b) = cap b"
  using assms by (auto simp: compact_def contents_def min_def)

lemma consume_to_inv:
  assumes "jbuffer_inv b" "bufpos b + head b \<le> off" "off \<le> bufpos b + tail b"
  shows "\<exists>b'. consume_to off b = Some b' \<and> jbuffer_inv b'
           \<and> bufpos b' + head b' = off \<and> bufpos b' + tail b' = bufpos b + tail b
           \<and> contents b' = drop (off - (bufpos b + head b)) (contents b)"
proof -
  let ?b1 = "b\<lparr>head := off - bufpos b\<rparr>"
  have ht: "head ?b1 \<le> tail ?b1" and tl: "tail ?b1 \<le> length (buf ?b1)"
    and inv1: "jbuffer_inv ?b1" and abs: "bufpos ?b1 + head ?b1 = off"
    using assms by (auto simp: jbuffer_inv_def)
  have c1: "contents ?b1 = drop (off - (bufpos b + head b)) (contents b)"
  proof -
    have "off - (bufpos b + head b) + head b = off - bufpos b" using assms(2) by simp
    moreover have "tail b - head b - (off - (bufpos b + head b)) = tail b - (off - bufpos b)"
      using assms(2) by simp
    ultimately show ?thesis by (simp add: contents_def drop_take)
  qed
  show ?thesis
  proof (cases "tail ?b1 \<ge> 3 * cap ?b1 div 4")
    case True
    then have "consume_to off b = Some (compact ?b1)"
      using assms(2,3) by (simp add: consume_to_def Let_def)
    moreover have "jbuffer_inv (compact ?b1)"
      using inv1 by (auto simp: jbuffer_inv_def compact_def min_def)
    ultimately show ?thesis
      using compact_preserves(1,2,3) [OF ht tl] abs c1 by simp
  next
    case False
    then have "consume_to off b = Some ?b1"
      using assms(2,3) by (simp add: consume_to_def Let_def)
    then show ?thesis using inv1 abs c1 by simp
  qed
qed

lemma jstep_inv:
  assumes "jbuffer_inv b" "offset_ok op b"
  shows "\<exists>b'. jstep op b = Some b' \<and> jbuffer_inv b'"
proof (cases op)
  case (Append bytes)
  then show ?thesis using append_inv [OF assms(1), of bytes] by (auto simp: jstep_def)
next
  case (Append_char ch)
  then show ?thesis using append_char_inv [OF assms(1), of ch] by (auto simp: jstep_def)
next
  case (Read fd r)
  then show ?thesis using jread_inv [OF assms(1), of fd r] by (simp add: jstep_def)
next
  case (Write fd off r)
  with assms(2) have "bufpos b + head b \<le> off" "off \<le> bufpos b + tail b"
    by (simp_all add: offset_ok_def)
  from jwrite_inv [OF assms(1) this, of fd r] Write show ?thesis by (auto simp: jstep_def)
next
  case (Consume_to off)
  with assms(2) have "bufpos b + head b \<le> off" "off \<le> bufpos b + tail b"
    by (simp_all add: offset_ok_def)
  from consume_to_inv [OF assms(1) this] Consume_to show ?thesis by (auto simp: jstep_def)
qed

lemma jrun_inv:
  "jbuffer_inv b \<Longrightarrow> offsets_ok ops b \<Longrightarrow>
   \<exists>bs. jrun ops b = Some bs \<and> length bs = length ops \<and> list_all jbuffer_inv bs"
proof (induction ops arbitrary: b)
  case Nil
  then show ?case by simp
next
  case (Cons op ops)
  from Cons.prems have ok: "offset_ok op b" by simp
  from jstep_inv [OF Cons.prems(1) ok] obtain b1 where b1: "jstep op b = Some b1" "jbuffer_inv b1"
    by blast
  with Cons.prems(2) have "offsets_ok ops b1" by simp
  from Cons.IH [OF b1(2) this] obtain bs where
    "jrun ops b1 = Some bs" "length bs = length ops" "list_all jbuffer_inv bs" by blast
  with b1 show ?case by simp
qed

lemma jbuffer_new_inv: "0 < n \<Longrightarrow> jbuffer_inv (jbuffer_new n)"
  by (simp add: jbuffer_inv_def jbuffer_new_def)

text \<open>
  C9. A buffer made with a positive capacity satisfies the invariant, and from a buffer
  that satisfies it every sequence of \<^verbatim>\<open>append\<close>, \<^verbatim>\<open>read\<close>, \<^verbatim>\<open>write\<close> and \<^verbatim>\<open>consume_to\<close>
  operations whose offsets lie between \<open>bufpos + head\<close> and \<open>bufpos + tail\<close> runs to its
  end, with \<open>head \<le> tail \<le> cap\<close> after every operation. \<^verbatim>\<open>consume_to(off)\<close> with such an
  offset returns; when \<open>tail \<ge> 3 * cap / 4\<close> it compacts (the bytes from \<open>off\<close> on move to
  the start of the array, \<open>head\<close> becomes 0 and \<open>bufpos\<close> becomes \<open>off\<close>), otherwise the array
  and \<open>bufpos\<close> stay as they are; either way the absolute position \<open>bufpos + head\<close> is \<open>off\<close>,
  \<open>bufpos + tail\<close> is unchanged and the bytes between them are those that were there.
  Compaction itself leaves \<open>bufpos + head\<close>, \<open>bufpos + tail\<close> and the bytes between them
  unchanged.
\<close>

theorem jbuffer_invariant_and_compaction:
  "(0 < n \<longrightarrow> jbuffer_inv (jbuffer_new n))
   \<and> (jbuffer_inv b \<and> offsets_ok ops b \<longrightarrow>
        (\<exists>bs. jrun ops b = Some bs \<and> length bs = length ops
              \<and> list_all (\<lambda>b'. head b' \<le> tail b' \<and> tail b' \<le> cap b') bs))
   \<and> (jbuffer_inv b \<and> bufpos b + head b \<le> off \<and> off \<le> bufpos b + tail b \<longrightarrow>
        (\<exists>b'. consume_to off b = Some b'
              \<and> (3 * cap b div 4 \<le> tail b \<longrightarrow>
                    head b' = 0 \<and> bufpos b' = off
                    \<and> take (tail b') (buf b') = take (bufpos b + tail b - off) (drop (off - bufpos b) (buf b)))
              \<and> (tail b < 3 * cap b div 4 \<longrightarrow>
                    buf b' = buf b \<and> bufpos b' = bufpos b \<and> head b' = off - bufpos b
                    \<and> tail b' = tail b)
              \<and> bufpos b' + head b' = off
              \<and> bufpos b' + tail b' = bufpos b + tail b
              \<and> contents b' = drop (off - (bufpos b + head b)) (contents b)))
   \<and> (head b \<le> tail b \<and> tail b \<le> length (buf b) \<longrightarrow>
        bufpos (compact b) + head (compact b) = bufpos b + head b
        \<and> bufpos (compact b) + tail (compact b) = bufpos b + tail b
        \<and> contents (compact b) = contents b)"
proof (intro conjI impI)
  assume "0 < n"
  then show "jbuffer_inv (jbuffer_new n)" by (rule jbuffer_new_inv)
next
  assume "jbuffer_inv b \<and> offsets_ok ops b"
  then obtain bs where bs: "jrun ops b = Some bs" "length bs = length ops" "list_all jbuffer_inv bs"
    using jrun_inv [of b ops] by blast
  from bs(3) have "list_all (\<lambda>b'. head b' \<le> tail b' \<and> tail b' \<le> cap b') bs"
    by (induction bs) (simp_all add: jbuffer_inv_def)
  with bs(1,2) show "\<exists>bs. jrun ops b = Some bs \<and> length bs = length ops
              \<and> list_all (\<lambda>b'. head b' \<le> tail b' \<and> tail b' \<le> cap b') bs" by blast
next
  assume a: "jbuffer_inv b \<and> bufpos b + head b \<le> off \<and> off \<le> bufpos b + tail b"
  then have inv: "jbuffer_inv b" and lo: "bufpos b + head b \<le> off" and hi: "off \<le> bufpos b + tail b"
    by simp_all
  from consume_to_inv [OF inv lo hi] obtain b' where b':
    "consume_to off b = Some b'" "bufpos b' + head b' = off"
    "bufpos b' + tail b' = bufpos b + tail b"
    "contents b' = drop (off - (bufpos b + head b)) (contents b)" by blast
  have len: "tail b \<le> length (buf b)" using inv by (simp add: jbuffer_inv_def)
  have big: "head b' = 0 \<and> bufpos b' = off
        \<and> take (tail b') (buf b') = take (bufpos b + tail b - off) (drop (off - bufpos b) (buf b))"
    if "3 * cap b div 4 \<le> tail b"
  proof -
    from that lo hi have "consume_to off b = Some (compact (b\<lparr>head := off - bufpos b\<rparr>))"
      by (simp add: consume_to_def Let_def)
    with b'(1) have eq: "b' = compact (b\<lparr>head := off - bufpos b\<rparr>)" by simp
    have "bufpos b + tail b - off = tail b - (off - bufpos b)" using lo by simp
    then show ?thesis using lo hi len by (simp add: eq compact_def)
  qed
  have small: "buf b' = buf b \<and> bufpos b' = bufpos b \<and> head b' = off - bufpos b \<and> tail b' = tail b"
    if "tail b < 3 * cap b div 4"
  proof -
    from that lo hi have "consume_to off b = Some (b\<lparr>head := off - bufpos b\<rparr>)"
      by (simp add: consume_to_def Let_def)
    with b'(1) show ?thesis by auto
  qed
  from b' big small show "\<exists>b'. consume_to off b = Some b'
              \<and> (3 * cap b div 4 \<le> tail b \<longrightarrow>
                    head b' = 0 \<and> bufpos b' = off
                    \<and> take (tail b') (buf b') = take (bufpos b + tail b - off) (drop (off - bufpos b) (buf b)))
              \<and> (tail b < 3 * cap b div 4 \<longrightarrow>
                    buf b' = buf b \<and> bufpos b' = bufpos b \<and> head b' = off - bufpos b
                    \<and> tail b' = tail b)
              \<and> bufpos b' + head b' = off
              \<and> bufpos b' + tail b' = bufpos b + tail b
              \<and> contents b' = drop (off - (bufpos b + head b)) (contents b)" by blast
next
  assume "head b \<le> tail b \<and> tail b \<le> length (buf b)"
  then show "bufpos (compact b) + head (compact b) = bufpos b + head b"
    "bufpos (compact b) + tail (compact b) = bufpos b + tail b"
    "contents (compact b) = contents b"
    using compact_preserves [of b] by simp_all
qed

lemma reserve_loop_6_4: "reserve_loop (Suc (Suc (Suc (Suc (Suc (Suc 0)))))) 4 = Some 8"
proof -
  have "reserve_loop 6 4 = Some 8"
    by (simp add: reserve_loop.simps [of 6 4] reserve_loop.simps [of 6 8])
  moreover have "(6::nat) = Suc (Suc (Suc (Suc (Suc (Suc 0)))))" by simp
  ultimately show ?thesis by (simp only:)
qed

lemmas jbuffer_eval = offset_ok_def jstep_def append_def append_char_def jbuffer_new_def
  jwrite_def jread_def consume_to_def compact_def reserve_def Let_def reserve_loop_6_4

lemma example_offsets_ok: "offsets_ok example_ops (jbuffer_new 4)"
  by (simp add: example_ops_def jbuffer_eval)

theorem jbuffer_invariant_and_compaction_witness:
  "(\<exists>bs. jrun example_ops (jbuffer_new 4) = Some bs \<and> length bs = 8
         \<and> list_all (\<lambda>b'. head b' \<le> tail b' \<and> tail b' \<le> cap b') bs)
   \<and> (\<exists>b'. consume_to 2 \<lparr>buf = [1, 2, 3, 0], head = 0, tail = 3, cap = 4, bufpos = 0,
                rclosed = False, wclosed = False, rerrno = 0\<rparr> = Some b'
            \<and> head b' = 0 \<and> bufpos b' = 2 \<and> tail b' = 1 \<and> contents b' = [3])"
proof -
  have h1: "jbuffer_inv (jbuffer_new 4)" by (simp add: jbuffer_inv_def jbuffer_new_def)
  have h3: "jbuffer_inv \<lparr>buf = [1, 2, 3, 0], head = 0, tail = 3, cap = 4, bufpos = 0,
                rclosed = False, wclosed = False, rerrno = 0\<rparr>" by (simp add: jbuffer_inv_def)
  have len: "length example_ops = 8" by (simp add: example_ops_def)
  from jbuffer_invariant_and_compaction [of 4 "jbuffer_new 4" example_ops 0]
  have a: "\<exists>bs. jrun example_ops (jbuffer_new 4) = Some bs \<and> length bs = 8
         \<and> list_all (\<lambda>b'. head b' \<le> tail b' \<and> tail b' \<le> cap b') bs"
    using h1 example_offsets_ok len by simp
  from jbuffer_invariant_and_compaction [of 4 "\<lparr>buf = [1, 2, 3, 0], head = 0, tail = 3, cap = 4, bufpos = 0,
                rclosed = False, wclosed = False, rerrno = 0\<rparr>" "[]" 2]
  have b: "\<exists>b'. consume_to 2 \<lparr>buf = [1, 2, 3, 0], head = 0, tail = 3, cap = 4, bufpos = 0,
                rclosed = False, wclosed = False, rerrno = 0\<rparr> = Some b'
            \<and> head b' = 0 \<and> bufpos b' = 2 \<and> tail b' = 1 \<and> contents b' = [3]"
    using h3 by (auto simp: contents_def)
  from a b show ?thesis by blast
qed

section \<open>Properties of the termination check\<close>

text \<open>
  C2, as the specification states it, fails: with the wall-clock timeout expired and a
  \<^verbatim>\<open>SIGTERM\<close> received, no child reaped and no \<^verbatim>\<open>waitpid\<close> error, the check returns
  \<^verbatim>\<open>128 + SIGTERM\<close> = 143, not 124.
\<close>

theorem check_child_timeout_sigterm_before_timeout:
  "map_option fst
     (check_child_timeout 42 False [(- 1, - 1)] EAGAIN \<lparr>tv_sec = 200, tv_usec = 0\<rparr>
        \<lparr>child_status = - 1, expiry = \<lparr>tv_sec = 100, tv_usec = 0\<rparr>,
         idle_expiry = \<lparr>tv_sec = 0, tv_usec = 0\<rparr>, got_sigterm = 1, errno = 0\<rparr>)
   = Some 143"
  by (simp add: check_child_timeout_def SIGTERM_def EAGAIN_def ECHILD_def)

text \<open>
  C2, amended. When the check gets past the \<^verbatim>\<open>waitpid\<close> error test and the child's exit
  status (the loop of \<^verbatim>\<open>x_waitpid\<close> calls has ended with \<^verbatim>\<open>errno\<close> one of \<^verbatim>\<open>EAGAIN\<close>,
  \<^verbatim>\<open>ECHILD\<close>, and the child's status is not both known and asked for), a received
  \<^verbatim>\<open>SIGTERM\<close> wins over the timeouts: the result is \<^verbatim>\<open>128 + SIGTERM\<close> whether or not the
  wall-clock or idle timeout has expired. The result is 124 for an expired wall-clock or
  idle timeout only when no \<^verbatim>\<open>SIGTERM\<close> has been received.
\<close>

theorem check_child_timeout_priority:
  assumes "reap_children child xrs (child_status c) = Some status"
    and "err = EAGAIN \<or> err = ECHILD"
    and "status < 0 \<or> waitpid = False"
  shows "(got_sigterm c \<noteq> 0 \<longrightarrow>
            map_option fst (check_child_timeout child waitpid xrs err now c) = Some (128 + SIGTERM))
       \<and> (got_sigterm c = 0
            \<and> ((timerisset (expiry c) \<and> timercmp_gt now (expiry c))
                \<or> (timerisset (idle_expiry c) \<and> timercmp_gt now (idle_expiry c))) \<longrightarrow>
            map_option fst (check_child_timeout child waitpid xrs err now c) = Some 124)"
  using assms by (auto simp: check_child_timeout_def EAGAIN_def ECHILD_def)

theorem check_child_timeout_priority_witness:
  "map_option fst
     (check_child_timeout 42 True [(- 1, - 1)] EAGAIN \<lparr>tv_sec = 200, tv_usec = 0\<rparr>
        \<lparr>child_status = - 1, expiry = \<lparr>tv_sec = 100, tv_usec = 0\<rparr>,
         idle_expiry = \<lparr>tv_sec = 150, tv_usec = 0\<rparr>, got_sigterm = 1, errno = 0\<rparr>)
   = Some (128 + SIGTERM)
   \<and> map_option fst
     (check_child_timeout 42 True [(7, 0), (- 1, - 1)] ECHILD \<lparr>tv_sec = 200, tv_usec = 0\<rparr>
        \<lparr>child_status = - 1, expiry = \<lparr>tv_sec = 0, tv_usec = 0\<rparr>,
         idle_expiry = \<lparr>tv_sec = 150, tv_usec = 0\<rparr>, got_sigterm = 0, errno = 0\<rparr>)
   = Some 124"
  using
    check_child_timeout_priority [of 42 "[(- 1, - 1)]"
      "\<lparr>child_status = - 1, expiry = \<lparr>tv_sec = 100, tv_usec = 0\<rparr>,
         idle_expiry = \<lparr>tv_sec = 150, tv_usec = 0\<rparr>, got_sigterm = 1, errno = 0\<rparr>"
      "- 1" EAGAIN True "\<lparr>tv_sec = 200, tv_usec = 0\<rparr>"]
    check_child_timeout_priority [of 42 "[(7, 0), (- 1, - 1)]"
      "\<lparr>child_status = - 1, expiry = \<lparr>tv_sec = 0, tv_usec = 0\<rparr>,
         idle_expiry = \<lparr>tv_sec = 150, tv_usec = 0\<rparr>, got_sigterm = 0, errno = 0\<rparr>"
      "- 1" ECHILD True "\<lparr>tv_sec = 200, tv_usec = 0\<rparr>"]
  by (simp add: timerisset_def timercmp_gt_def)

section \<open>Properties of the JSON output\<close>

lemmas byte_nat = word_less_nat_alt word_le_nat_alt word_unat_eq_iff second_of3_def second_of4_def
  continuation_def lead_of2_def lead_byte_def

lemma continuation_iff: "continuation c \<longleftrightarrow> \<not> (c < 0x80 \<or> c > 0xBF)"
  unfolding byte_nat by simp arith

lemma ascii_iff: "c \<le> 0x7F \<longleftrightarrow> c < (0x80 :: byte)"
  unfolding byte_nat by simp arith

lemma bad_lead:
  assumes "\<not> c < 0x80" "c < 0xC2 \<or> c > (0xF4 :: byte)"
  shows "lead_of2 c = False" "second_of3 c x = False" "second_of4 c x = False"
    "lead_byte c = False"
  using assms unfolding byte_nat by (simp; arith)+

lemma lead2:
  assumes "\<not> c < 0x80" "\<not> (c < 0xC2 \<or> c > 0xF4)" "c < (0xE0 :: byte)"
  shows "lead_of2 c = True" "second_of3 c x = False" "second_of4 c x = False"
    "lead_byte c = True"
  using assms unfolding byte_nat by (simp; arith)+

lemma lead3:
  assumes "\<not> (c < 0xC2 \<or> c > 0xF4)" "\<not> c < 0xE0" "c < (0xF0 :: byte)" "continuation c1"
  shows "lead_of2 c = False" "second_of4 c x = False"
    "second_of3 c c1 \<longleftrightarrow> \<not> ((c = 0xE0 \<and> c1 < 0xA0) \<or> (c = 0xED \<and> c1 > 0x9F)
                    \<or> (c = 0xF0 \<and> c1 < 0x90) \<or> (c = 0xF4 \<and> c1 > 0x8F))"
    "lead_byte c = True"
  using assms unfolding byte_nat by (simp; arith)+

lemma lead4:
  assumes "\<not> (c < 0xC2 \<or> c > 0xF4)" "\<not> c < (0xF0 :: byte)" "continuation c1"
  shows "lead_of2 c = False" "second_of3 c x = False"
    "second_of4 c c1 \<longleftrightarrow> \<not> ((c = 0xE0 \<and> c1 < 0xA0) \<or> (c = 0xED \<and> c1 > 0x9F)
                    \<or> (c = 0xF0 \<and> c1 < 0x90) \<or> (c = 0xF4 \<and> c1 > 0x8F))"
    "lead_byte c = True"
  using assms unfolding byte_nat by (simp; arith)+

lemma lead_not_cont:
  assumes "\<not> continuation c1"
  shows "second_of3 c c1 = False" "second_of4 c c1 = False"
  using assms unfolding byte_nat by (simp; arith)+

lemma utf8_len_Cons:
  "utf8_len (c # cs) =
    (if c \<le> 0x7F then Some 1
     else case cs of [] \<Rightarrow> None
     | c1 # cs1 \<Rightarrow>
         if lead_of2 c \<and> continuation c1 then Some 2
         else case cs1 of [] \<Rightarrow> None
         | c2 # cs2 \<Rightarrow>
             if second_of3 c c1 \<and> continuation c2 then Some 3
             else case cs2 of [] \<Rightarrow> None
             | c3 # cs3 \<Rightarrow>
                 if second_of4 c c1 \<and> continuation c2 \<and> continuation c3 then Some 4 else None)"
  by (simp add: utf8_len_def split: list.split)

lemma utf8_cut_short_Cons:
  "utf8_cut_short (c # cs) =
    (case cs of [] \<Rightarrow> lead_byte c
     | c1 # cs1 \<Rightarrow>
         (case cs1 of [] \<Rightarrow> second_of3 c c1 \<or> second_of4 c c1
          | c2 # cs2 \<Rightarrow>
              (case cs2 of [] \<Rightarrow> second_of4 c c1 \<and> continuation c2 | c3 # cs3 \<Rightarrow> False)))"
  by (simp split: list.split)

lemma json_spec_ascii:
  "c < 0x80 \<Longrightarrow> json_spec (c # cs) = (json_escape c @ fst (json_spec cs), 1 + snd (json_spec cs))"
  by (simp add: json_spec.simps [of "c # cs"] utf8_len_Cons ascii_iff)

lemma json_spec_replace:
  "utf8_len (c # cs) = None \<Longrightarrow> \<not> utf8_cut_short (c # cs) \<Longrightarrow>
   json_spec (c # cs) = (0x7F # fst (json_spec cs), 1 + snd (json_spec cs))"
  by (simp add: json_spec.simps [of "c # cs"])

lemma json_spec_cut_short:
  "utf8_len (c # cs) = None \<Longrightarrow> utf8_cut_short (c # cs) \<Longrightarrow> json_spec (c # cs) = ([], 0)"
  by (simp add: json_spec.simps [of "c # cs"])

lemma json_spec_copy:
  "utf8_len inp = Some n \<Longrightarrow> 1 < n \<Longrightarrow>
   json_spec inp = (take n inp @ fst (json_spec (drop n inp)), n + snd (json_spec (drop n inp)))"
proof -
  assume n: "utf8_len inp = Some n" "1 < n"
  have "utf8_len [] = None" by (simp add: utf8_len_def)
  with n(1) have "inp \<noteq> []" by auto
  with n show ?thesis by (simp add: json_spec.simps [of inp])
qed

lemma append_chars_inv:
  "jbuffer_inv b \<Longrightarrow>
   \<exists>b'. append_chars chs b = Some b' \<and> jbuffer_inv b' \<and> contents b' = contents b @ chs"
proof (induction chs arbitrary: b)
  case Nil
  then show ?case by simp
next
  case (Cons ch chs)
  from append_char_inv [OF Cons.prems, of ch] obtain b1 where
    b1: "append_char ch b = Some b1" "jbuffer_inv b1" "contents b1 = contents b @ [ch]" by blast
  from Cons.IH [OF b1(2)] obtain b' where
    "append_chars chs b1 = Some b'" "jbuffer_inv b'" "contents b' = contents b1 @ chs" by blast
  with b1 show ?case by simp
qed

lemma flush_then_inv:
  assumes "jbuffer_inv b"
  shows "\<exists>b'. flush_then pending chs b = Some b' \<and> jbuffer_inv b'
           \<and> contents b' = contents b @ pending @ chs"
proof -
  from append_inv [OF assms, of pending] obtain b1 where
    b1: "append pending b = Some b1" "jbuffer_inv b1" "contents b1 = contents b @ pending" by blast
  from append_chars_inv [OF b1(2), of chs] obtain b' where
    "append_chars chs b1 = Some b'" "jbuffer_inv b'" "contents b' = contents b1 @ chs" by blast
  with b1 show ?thesis by (simp add: flush_then_def)
qed

lemma ajc_ok_flush:
  assumes "jbuffer_inv b"
    and "\<And>b1. jbuffer_inv b1 \<Longrightarrow> ajc_ok [] cs b1"
    and "ajc_loop pending (c # cs) b =
           (case flush_then pending chs b of None \<Rightarrow> None | Some b1 \<Rightarrow> ajc_loop [] cs b1)"
    and "json_spec (c # cs) = (chs @ fst (json_spec cs), 1 + snd (json_spec cs))"
  shows "ajc_ok pending (c # cs) b"
proof -
  from flush_then_inv [OF assms(1), of pending chs] obtain b1 where
    b1: "flush_then pending chs b = Some b1" "jbuffer_inv b1"
    "contents b1 = contents b @ pending @ chs" by blast
  from assms(2) [OF b1(2)] obtain pending' b' where
    "ajc_loop [] cs b1 = Some (pending', drop (snd (json_spec cs)) cs, b')" "jbuffer_inv b'"
    "contents b' @ pending' = contents b1 @ [] @ fst (json_spec cs)"
    "snd (json_spec cs) \<le> length cs"
    unfolding ajc_ok_def by blast
  then show ?thesis
    unfolding ajc_ok_def using b1 assms(3,4) by simp
qed

lemma ajc_ok_copy:
  assumes "ajc_ok (pending @ take n unread) (drop n unread) b"
    and "ajc_loop pending unread b = ajc_loop (pending @ take n unread) (drop n unread) b"
    and "json_spec unread
           = (take n unread @ fst (json_spec (drop n unread)), n + snd (json_spec (drop n unread)))"
    and "n \<le> length unread"
  shows "ajc_ok pending unread b"
  using assms unfolding ajc_ok_def by (auto simp: add.commute)

lemma ajc_ok_break:
  assumes "jbuffer_inv b" "ajc_loop pending unread b = Some (pending, unread, b)"
    and "json_spec unread = ([], 0)"
  shows "ajc_ok pending unread b"
  using assms unfolding ajc_ok_def by simp


lemma lead_cases:
  assumes "\<not> (c < 0xC2 \<or> c > (0xF4 :: byte))"
  shows "lead_byte c = True"
  using assms unfolding byte_nat by (simp; arith)+

lemma second_cases:
  assumes "\<not> (c < 0xC2 \<or> c > 0xF4)" "\<not> c < (0xE0 :: byte)" "continuation c1"
  shows "lead_of2 c = False"
    "second_of3 c c1 = (c < 0xF0 \<and> \<not> ((c = 0xE0 \<and> c1 < 0xA0) \<or> (c = 0xED \<and> c1 > 0x9F)
                    \<or> (c = 0xF0 \<and> c1 < 0x90) \<or> (c = 0xF4 \<and> c1 > 0x8F)))"
    "second_of4 c c1 = (\<not> c < 0xF0 \<and> \<not> ((c = 0xE0 \<and> c1 < 0xA0) \<or> (c = 0xED \<and> c1 > 0x9F)
                    \<or> (c = 0xF0 \<and> c1 < 0x90) \<or> (c = 0xF4 \<and> c1 > 0x8F)))"
  using assms unfolding byte_nat by (simp; arith)+

lemma not_ascii:
  assumes "\<not> c < (0x80 :: byte)"
  shows "c \<noteq> 0" "\<not> c < 32" "c \<noteq> 0x5C" "c \<noteq> 0x22" "(c \<le> 0x7F) = False"
  using assms unfolding byte_nat by (simp; arith)+

lemma json_spec_Nil: "json_spec [] = ([], 0)"
  by (simp add: json_spec.simps [of "[]"])

lemma ajc_loop_spec:
  "jbuffer_inv b \<Longrightarrow> ajc_ok pending unread b"
proof (induction unread arbitrary: pending b rule: length_induct)
  case (1 unread)
  note inv = \<open>jbuffer_inv b\<close>
  show ?case
  proof (cases unread)
    case Nil
    show ?thesis unfolding Nil using inv by (intro ajc_ok_break) (simp_all add: json_spec_Nil)
  next
    case (Cons c cs)
    have IH: "ajc_ok p ys b1" if "length ys < Suc (length cs)" "jbuffer_inv b1" for p ys b1
      using 1(1) that by (simp add: Cons)
    have skipIH: "\<And>b1. jbuffer_inv b1 \<Longrightarrow> ajc_ok [] cs b1"
      by (rule IH) simp_all
    consider (nul) "c = 0"
      | (esc) "c \<noteq> 0" "c < 32 \<or> c = 0x5C \<or> c = 0x22"
      | (plain) "c \<noteq> 0" "\<not> (c < 32 \<or> c = 0x5C \<or> c = 0x22)" "c < 0x80"
      | (bad) "\<not> c < 0x80" "c < 0xC2 \<or> c > 0xF4"
      | (lead) "\<not> c < 0x80" "\<not> (c < 0xC2 \<or> c > 0xF4)"
      by blast
    then show ?thesis unfolding Cons
    proof cases
      case nul
      show "ajc_ok pending (c # cs) b"
      proof (rule ajc_ok_flush [OF inv skipIH, where chs = "[0x7F]"])
        show "ajc_loop pending (c # cs) b =
           (case flush_then pending [0x7F] b of None \<Rightarrow> None | Some b1 \<Rightarrow> ajc_loop [] cs b1)"
          using nul by simp
        show "json_spec (c # cs) = ([0x7F] @ fst (json_spec cs), 1 + snd (json_spec cs))"
          using nul by (simp add: json_spec_ascii json_escape_def)
      qed
    next
      case esc
      show "ajc_ok pending (c # cs) b"
      proof (rule ajc_ok_flush [OF inv skipIH, where chs = "0x5C # escape_tail c"])
        show "ajc_loop pending (c # cs) b =
           (case flush_then pending (0x5C # escape_tail c) b of None \<Rightarrow> None
            | Some b1 \<Rightarrow> ajc_loop [] cs b1)"
          using esc by simp
        have "c < 0x80" using esc(2) unfolding byte_nat by (simp; arith)
        then show "json_spec (c # cs) = ((0x5C # escape_tail c) @ fst (json_spec cs), 1 + snd (json_spec cs))"
          using esc by (simp add: json_spec_ascii json_escape_def)
      qed
    next
      case plain
      show "ajc_ok pending (c # cs) b"
      proof (rule ajc_ok_copy [where n = 1])
        show "ajc_ok (pending @ take 1 (c # cs)) (drop 1 (c # cs)) b"
          using IH [of cs b "pending @ [c]"] inv by simp
        show "ajc_loop pending (c # cs) b = ajc_loop (pending @ take 1 (c # cs)) (drop 1 (c # cs)) b"
          using plain by simp
        show "json_spec (c # cs) = (take 1 (c # cs) @ fst (json_spec (drop 1 (c # cs))),
            1 + snd (json_spec (drop 1 (c # cs))))"
          using plain by (simp add: json_spec_ascii json_escape_def)
        show "1 \<le> length (c # cs)" by simp
      qed
    next
      case bad
      show "ajc_ok pending (c # cs) b"
      proof (rule ajc_ok_flush [OF inv skipIH, where chs = "[0x7F]"])
        show "ajc_loop pending (c # cs) b =
           (case flush_then pending [0x7F] b of None \<Rightarrow> None | Some b1 \<Rightarrow> ajc_loop [] cs b1)"
          using bad not_ascii [OF bad(1)] by simp
        have "utf8_len (c # cs) = None"
          by (simp add: utf8_len_Cons bad_lead [OF bad] not_ascii(5) [OF bad(1)] split: list.split)
        moreover have "\<not> utf8_cut_short (c # cs)"
          by (simp add: utf8_cut_short_Cons bad_lead [OF bad] split: list.split)
        ultimately show "json_spec (c # cs) = ([0x7F] @ fst (json_spec cs), 1 + snd (json_spec cs))"
          by (simp add: json_spec_replace)
      qed
    next
      case lead
      note na = not_ascii [OF lead(1)]
      show "ajc_ok pending (c # cs) b"
      proof (cases cs)
        case Nil
        show ?thesis unfolding Nil
        proof (rule ajc_ok_break [OF inv])
          show "ajc_loop pending [c] b = Some (pending, [c], b)"
            using lead na by simp
          show "json_spec [c] = ([], 0)"
            by (rule json_spec_cut_short)
               (simp_all add: utf8_len_Cons utf8_cut_short_Cons na lead_cases [OF lead(2)])
        qed
      next
        case c1: (Cons c1 cs1)
        show ?thesis
        proof (cases "c1 < 0x80 \<or> c1 > 0xBF")
          case True
          then have nc: "continuation c1 = False" by (simp add: continuation_iff)
          show ?thesis
          proof (rule ajc_ok_flush [OF inv skipIH, where chs = "[0x7F]"])
            show "ajc_loop pending (c # cs) b =
               (case flush_then pending [0x7F] b of None \<Rightarrow> None | Some b1 \<Rightarrow> ajc_loop [] cs b1)"
              unfolding c1 using lead na True by simp
            have "utf8_len (c # cs) = None"
              by (simp add: c1 utf8_len_Cons na nc lead_not_cont split: list.split)
            moreover have "\<not> utf8_cut_short (c # cs)"
              by (simp add: c1 utf8_cut_short_Cons nc lead_not_cont split: list.split)
            ultimately show "json_spec (c # cs) = ([0x7F] @ fst (json_spec cs), 1 + snd (json_spec cs))"
              by (simp add: json_spec_replace)
          qed
        next
          case cont1: False
          then have ct1: "continuation c1 = True" by (simp add: continuation_iff)
          show ?thesis
          proof (cases "c < 0xE0")
            case True
            show ?thesis
            proof (rule ajc_ok_copy [where n = 2])
              show "ajc_ok (pending @ take 2 (c # cs)) (drop 2 (c # cs)) b"
                using IH [of cs1 b "pending @ [c, c1]"] inv by (simp add: c1)
              show "ajc_loop pending (c # cs) b = ajc_loop (pending @ take 2 (c # cs)) (drop 2 (c # cs)) b"
                unfolding c1 using lead na cont1 True by simp
              have "utf8_len (c # cs) = Some 2"
                by (simp add: c1 utf8_len_Cons na ct1 lead2 [OF lead True])
              then show "json_spec (c # cs) = (take 2 (c # cs) @ fst (json_spec (drop 2 (c # cs))),
                  2 + snd (json_spec (drop 2 (c # cs))))"
                by (rule json_spec_copy) simp
              show "2 \<le> length (c # cs)" by (simp add: c1)
            qed
          next
            case ge_e0: False
            note sec = second_cases [OF lead(2) ge_e0, of c1, unfolded ct1, OF TrueI]
            show ?thesis
            proof (cases "(c = 0xE0 \<and> c1 < 0xA0) \<or> (c = 0xED \<and> c1 > 0x9F)
                    \<or> (c = 0xF0 \<and> c1 < 0x90) \<or> (c = 0xF4 \<and> c1 > 0x8F)")
              case bad2: True
              have s3: "second_of3 c c1 = False" and s4: "second_of4 c c1 = False"
                using bad2 by (simp_all only: sec simp_thms)
              show ?thesis
              proof (rule ajc_ok_flush [OF inv skipIH, where chs = "[0x7F]"])
                show "ajc_loop pending (c # cs) b =
                   (case flush_then pending [0x7F] b of None \<Rightarrow> None | Some b1 \<Rightarrow> ajc_loop [] cs b1)"
                  unfolding c1 using lead na cont1 ge_e0 bad2 by simp
                have "utf8_len (c # cs) = None"
                  by (simp add: c1 utf8_len_Cons na sec(1) s3 s4 split: list.split)
                moreover have "\<not> utf8_cut_short (c # cs)"
                  by (simp add: c1 utf8_cut_short_Cons s3 s4 split: list.split)
                ultimately show "json_spec (c # cs) = ([0x7F] @ fst (json_spec cs), 1 + snd (json_spec cs))"
                  by (simp add: json_spec_replace)
              qed
            next
              case ok2': False
              have ok2: "((c = 0xE0 \<and> c1 < 0xA0) \<or> (c = 0xED \<and> c1 > 0x9F)
                    \<or> (c = 0xF0 \<and> c1 < 0x90) \<or> (c = 0xF4 \<and> c1 > 0x8F)) = False"
                using ok2' by (simp only: simp_thms)
              have s3: "second_of3 c c1 = (c < 0xF0)" and s4: "second_of4 c c1 = (\<not> c < 0xF0)"
                by (simp_all only: sec ok2 simp_thms)
              show ?thesis
              proof (cases cs1)
                case Nil
                show ?thesis unfolding c1 Nil
                proof (rule ajc_ok_break [OF inv])
                  show "ajc_loop pending [c, c1] b = Some (pending, [c, c1], b)"
                    using lead na cont1 ge_e0 by (simp add: ok2)
                  show "json_spec [c, c1] = ([], 0)"
                    by (rule json_spec_cut_short)
                       (simp_all add: utf8_len_Cons utf8_cut_short_Cons na sec(1) s3 s4)
                qed
              next
                case c2: (Cons c2 cs2)
                show ?thesis
                proof (cases "c2 < 0x80 \<or> c2 > 0xBF")
                  case True
                  then have nc2: "continuation c2 = False" by (simp add: continuation_iff)
                  show ?thesis
                  proof (rule ajc_ok_flush [OF inv skipIH, where chs = "[0x7F]"])
                    show "ajc_loop pending (c # cs) b =
                       (case flush_then pending [0x7F] b of None \<Rightarrow> None | Some b1 \<Rightarrow> ajc_loop [] cs b1)"
                      unfolding c1 c2 using lead na cont1 ge_e0 True by (simp add: ok2)
                    have "utf8_len (c # cs) = None"
                      by (simp add: c1 c2 utf8_len_Cons na sec(1) nc2 split: list.split)
                    moreover have "\<not> utf8_cut_short (c # cs)"
                      by (simp add: c1 c2 utf8_cut_short_Cons nc2 split: list.split)
                    ultimately show "json_spec (c # cs) = ([0x7F] @ fst (json_spec cs), 1 + snd (json_spec cs))"
                      by (simp add: json_spec_replace)
                  qed
                next
                  case cont2: False
                  then have ct2: "continuation c2 = True" by (simp add: continuation_iff)
                  show ?thesis
                  proof (cases "c < 0xF0")
                    case True
                    show ?thesis
                    proof (rule ajc_ok_copy [where n = 3])
                      show "ajc_ok (pending @ take 3 (c # cs)) (drop 3 (c # cs)) b"
                        using IH [of cs2 b "pending @ [c, c1, c2]"] inv by (simp add: c1 c2)
                      show "ajc_loop pending (c # cs) b = ajc_loop (pending @ take 3 (c # cs)) (drop 3 (c # cs)) b"
                        unfolding c1 c2 using lead na cont1 ge_e0 cont2 True by (simp add: ok2)
                      have "utf8_len (c # cs) = Some 3"
                        using True by (simp add: c1 c2 utf8_len_Cons na sec(1) s3 ct2)
                      then show "json_spec (c # cs) = (take 3 (c # cs) @ fst (json_spec (drop 3 (c # cs))),
                          3 + snd (json_spec (drop 3 (c # cs))))"
                        by (rule json_spec_copy) simp
                      show "3 \<le> length (c # cs)" by (simp add: c1 c2)
                    qed
                  next
                    case ge_f0: False
                    show ?thesis
                    proof (cases cs2)
                      case Nil
                      show ?thesis unfolding c1 c2 Nil
                      proof (rule ajc_ok_break [OF inv])
                        show "ajc_loop pending [c, c1, c2] b = Some (pending, [c, c1, c2], b)"
                          using lead na cont1 ge_e0 cont2 ge_f0 by (simp add: ok2)
                        show "json_spec [c, c1, c2] = ([], 0)"
                          using ge_f0 by (intro json_spec_cut_short)
                             (simp_all add: utf8_len_Cons utf8_cut_short_Cons na sec(1) s3 s4 ct2)
                      qed
                    next
                      case c3: (Cons c3 cs3)
                      show ?thesis
                      proof (cases "c3 < 0x80 \<or> c3 > 0xBF")
                        case True
                        then have nc3: "continuation c3 = False" by (simp add: continuation_iff)
                        show ?thesis
                        proof (rule ajc_ok_flush [OF inv skipIH, where chs = "[0x7F]"])
                          show "ajc_loop pending (c # cs) b =
                             (case flush_then pending [0x7F] b of None \<Rightarrow> None
                              | Some b1 \<Rightarrow> ajc_loop [] cs b1)"
                            unfolding c1 c2 c3 using lead na cont1 ge_e0 cont2 ge_f0 True by (simp add: ok2)
                          have "utf8_len (c # cs) = None"
                            using ge_f0 by (simp add: c1 c2 c3 utf8_len_Cons na sec(1) s3 nc3)
                          moreover have "\<not> utf8_cut_short (c # cs)"
                            by (simp add: c1 c2 c3 utf8_cut_short_Cons)
                          ultimately show "json_spec (c # cs) = ([0x7F] @ fst (json_spec cs), 1 + snd (json_spec cs))"
                            by (simp add: json_spec_replace)
                        qed
                      next
                        case cont3: False
                        then have ct3: "continuation c3 = True" by (simp add: continuation_iff)
                        show ?thesis
                        proof (rule ajc_ok_copy [where n = 4])
                          show "ajc_ok (pending @ take 4 (c # cs)) (drop 4 (c # cs)) b"
                            using IH [of cs3 b "pending @ [c, c1, c2, c3]"] inv by (simp add: c1 c2 c3)
                          show "ajc_loop pending (c # cs) b = ajc_loop (pending @ take 4 (c # cs)) (drop 4 (c # cs)) b"
                            unfolding c1 c2 c3 using lead na cont1 ge_e0 cont2 ge_f0 cont3 by (simp add: ok2)
                          have "utf8_len (c # cs) = Some 4"
                            using ge_f0 by (simp add: c1 c2 c3 utf8_len_Cons na sec(1) s3 s4 ct2 ct3)
                          then show "json_spec (c # cs) = (take 4 (c # cs) @ fst (json_spec (drop 4 (c # cs))),
                              4 + snd (json_spec (drop 4 (c # cs))))"
                            by (rule json_spec_copy) simp
                          show "4 \<le> length (c # cs)" by (simp add: c1 c2 c3)
                        qed
                      qed
                    qed
                  qed
                qed
              qed
            qed
          qed
        qed
      qed
    qed
  qed
qed

lemma hex_printable: "k < 16 \<Longrightarrow> 0x20 \<le> hex ! k"
proof -
  assume "k < 16"
  moreover have "length hex = 16" by (simp add: hex_def)
  ultimately have "hex ! k \<in> set hex" by (metis nth_mem)
  moreover have "\<forall>x \<in> set hex. 0x20 \<le> x" by (simp add: hex_def)
  ultimately show ?thesis by blast
qed

lemma nibbles: "unat ((c :: byte) div 16) < 16" "unat (c mod 16) < 16"
proof -
  have "unat c < 256" using unsigned_less [of c, where ?'a = nat] by simp
  then show "unat (c div 16) < 16" by (simp add: unat_div)
  show "unat (c mod 16) < 16" by (simp add: unat_mod)
qed

lemma escape_tail_printable: "x \<in> set (escape_tail c) \<Longrightarrow> 0x20 \<le> x"
  using hex_printable [OF nibbles(1), of c] hex_printable [OF nibbles(2), of c]
  by (auto simp: escape_tail_def split: if_splits)

lemma json_escape_printable: "x \<in> set (json_escape c) \<Longrightarrow> 0x20 \<le> x"
  using escape_tail_printable [of x c]
  by (auto simp: json_escape_def word_le_nat_alt word_less_nat_alt split: if_splits)

lemma utf8_len_Some:
  assumes "utf8_len inp = Some n"
  shows "n \<le> length inp" "utf8_seq (take n inp)" "0 < n"
proof -
  from assms obtain i where i: "i < length [1, 2, 3, 4 :: nat]"
    and P: "[1, 2, 3, 4] ! i \<le> length inp \<and> utf8_seq (take ([1, 2, 3, 4] ! i) inp)"
    and n: "n = [1, 2, 3, 4] ! i"
    unfolding utf8_len_def find_Some_iff by blast
  from P n show "n \<le> length inp" "utf8_seq (take n inp)" by simp_all
  from i have "[1, 2, 3, 4 :: nat] ! i \<in> set [1, 2, 3, 4]" by (rule nth_mem)
  with n show "0 < n" by auto
qed

lemma utf8_seq_high:
  assumes "utf8_seq s" "1 < length s" "x \<in> set s"
  shows "0x20 \<le> x"
proof -
  have lead2: "lead_of2 a \<Longrightarrow> 0x20 \<le> a" for a unfolding byte_nat by (simp; arith)
  have cont: "continuation a \<Longrightarrow> 0x20 \<le> a" for a unfolding byte_nat by (simp; arith)
  have s3: "second_of3 a c \<Longrightarrow> 0x20 \<le> a \<and> 0x20 \<le> c" for a c unfolding byte_nat by (simp; arith)
  have s4: "second_of4 a c \<Longrightarrow> 0x20 \<le> a \<and> 0x20 \<le> c" for a c unfolding byte_nat by (simp; arith)
  from assms(2) obtain a r where "s = a # r" by (cases s) auto
  moreover from this assms(2) obtain c1 cs where "r = c1 # cs" by (cases r) auto
  ultimately have s: "s = a # c1 # cs" by simp
  show ?thesis
  proof (cases cs)
    case Nil
    with assms s show ?thesis using lead2 cont by auto
  next
    case c2: (Cons c2 cs2)
    show ?thesis
    proof (cases cs2)
      case Nil
      with assms s c2 show ?thesis using s3 cont by auto
    next
      case c3: (Cons c3 cs3)
      with assms s c2 have "cs3 = []" by (cases cs3) auto
      with assms s c2 c3 show ?thesis using s4 cont by auto
    qed
  qed
qed

lemma json_spec_printable: "x \<in> set (fst (json_spec inp)) \<Longrightarrow> 0x20 \<le> x"
proof (induction inp arbitrary: x rule: json_spec.induct)
  case (1 inp)
  show ?case
  proof (cases "inp = []")
    case True
    with "1.prems" show ?thesis by (simp add: json_spec_Nil)
  next
    case ne: False
    show ?thesis
    proof (cases "utf8_len inp")
      case (Some n)
      from "1.prems" ne Some have "x \<in> set (if n = 1 then json_escape (hd inp) else take n inp)
          \<or> x \<in> set (fst (json_spec (drop n inp)))"
        by (simp add: json_spec.simps [of inp])
      then show ?thesis
      proof
        assume x: "x \<in> set (if n = 1 then json_escape (hd inp) else take n inp)"
        show ?thesis
        proof (cases "n = 1")
          case True
          with x show ?thesis using json_escape_printable by simp
        next
          case False
          with utf8_len_Some [OF Some] have "1 < length (take n inp)" by simp
          with x False utf8_len_Some(2) [OF Some] show ?thesis
            using utf8_seq_high [of "take n inp" x] by simp
        qed
      next
        assume "x \<in> set (fst (json_spec (drop n inp)))"
        with "1.IH" ne Some show ?thesis by blast
      qed
    next
      case None
      show ?thesis
      proof (cases "utf8_cut_short inp")
        case True
        with "1.prems" ne None show ?thesis by (simp add: json_spec.simps [of inp])
      next
        case False
        with "1.prems" ne None have "x = 0x7F \<or> x \<in> set (fst (json_spec (tl inp)))"
          by (simp add: json_spec.simps [of inp])
        with "1.IH" ne None False show ?thesis by auto
      qed
    qed
  qed
qed


lemma seq_classes:
  "lead_of2 a \<Longrightarrow> (a \<le> 0x7F) = False"
  "second_of3 a c \<Longrightarrow> (a \<le> 0x7F) = False"
  "second_of3 a c \<Longrightarrow> lead_of2 a = False"
  "second_of4 a c \<Longrightarrow> (a \<le> 0x7F) = False"
  "second_of4 a c \<Longrightarrow> lead_of2 a = False"
  "second_of4 a c \<Longrightarrow> second_of3 a c' = False"
  unfolding byte_nat by (simp; arith)+

lemma utf8_len_seq:
  assumes "utf8_seq s"
  shows "utf8_len (s @ r) = Some (length s)"
proof -
  consider a where "s = [a]" | a c1 where "s = [a, c1]" | a c1 c2 where "s = [a, c1, c2]"
    | a c1 c2 c3 where "s = [a, c1, c2, c3]"
    using assms by (cases s rule: utf8_seq.cases) auto
  then show ?thesis
  proof cases
    case 1
    with assms show ?thesis by (simp add: utf8_len_Cons)
  next
    case 2
    with assms have p: "lead_of2 a" "continuation c1" by simp_all
    show ?thesis by (simp add: 2 utf8_len_Cons seq_classes(1) [OF p(1)] p)
  next
    case 3
    with assms have p: "second_of3 a c1" "continuation c2" by simp_all
    show ?thesis by (simp add: 3 utf8_len_Cons seq_classes(2,3) [OF p(1)] p)
  next
    case 4
    with assms have p: "second_of4 a c1" "continuation c2" "continuation c3" by simp_all
    show ?thesis by (simp add: 4 utf8_len_Cons seq_classes(4,5,6) [OF p(1)] p)
  qed
qed

lemma json_spec_concat:
  "list_all utf8_seq seqs \<Longrightarrow>
   json_spec (concat seqs) =
     (concat (map (\<lambda>s. if length s = 1 then json_escape (hd s) else s) seqs), length (concat seqs))"
proof (induction seqs)
  case Nil
  then show ?case by (simp add: json_spec_Nil)
next
  case (Cons s seqs)
  then have s: "utf8_seq s" and IH: "json_spec (concat seqs) =
     (concat (map (\<lambda>s. if length s = 1 then json_escape (hd s) else s) seqs), length (concat seqs))"
    by simp_all
  from s have ne: "s \<noteq> []" by auto
  have len: "utf8_len (s @ concat seqs) = Some (length s)" using s by (rule utf8_len_seq)
  have "json_spec (s @ concat seqs) =
     ((if length s = 1 then json_escape (hd s) else s) @ fst (json_spec (concat seqs)),
      length s + snd (json_spec (concat seqs)))"
    using ne by (simp add: json_spec.simps [of "s @ concat seqs"] len)
  then show ?case by (simp add: IH)
qed

lemma json_spec_unconsumed:
  "drop (snd (json_spec inp)) inp = [] \<or> utf8_cut_short (drop (snd (json_spec inp)) inp)"
proof (induction inp rule: json_spec.induct)
  case (1 inp)
  show ?case
  proof (cases "inp = []")
    case True
    then show ?thesis by simp
  next
    case ne: False
    show ?thesis
    proof (cases "utf8_len inp")
      case (Some n)
      then have "snd (json_spec inp) = n + snd (json_spec (drop n inp))"
        using ne by (simp add: json_spec.simps [of inp])
      then have "drop (snd (json_spec inp)) inp = drop (snd (json_spec (drop n inp))) (drop n inp)"
        by (simp add: add.commute)
      with "1.IH" ne Some show ?thesis by simp
    next
      case None
      show ?thesis
      proof (cases "utf8_cut_short inp")
        case True
        with ne None show ?thesis by (simp add: json_spec.simps [of inp])
      next
        case False
        with ne None have "snd (json_spec inp) = 1 + snd (json_spec (tl inp))"
          by (simp add: json_spec.simps [of inp])
        then have "drop (snd (json_spec inp)) inp = drop (snd (json_spec (tl inp))) (tl inp)"
          by (simp add: drop_Suc)
        with "1.IH" ne None False show ?thesis by simp
      qed
    qed
  qed
qed

lemma append_json_chars_returns:
  assumes "jbuffer_inv b"
  shows "\<exists>b'. append_json_chars inp b = Some (snd (json_spec inp), b') \<and> jbuffer_inv b'
           \<and> contents b' = contents b @ fst (json_spec inp)"
proof -
  from ajc_loop_spec [OF assms, of "[]" inp] obtain pending b1 where
    loop: "ajc_loop [] inp b = Some (pending, drop (snd (json_spec inp)) inp, b1)"
    and inv1: "jbuffer_inv b1"
    and c1: "contents b1 @ pending = contents b @ [] @ fst (json_spec inp)"
    and le: "snd (json_spec inp) \<le> length inp"
    unfolding ajc_ok_def by blast
  from append_inv [OF inv1, of pending] obtain b2 where
    b2: "append pending b1 = Some b2" "jbuffer_inv b2" "contents b2 = contents b1 @ pending"
    by blast
  have "length inp - length (drop (snd (json_spec inp)) inp) = snd (json_spec inp)"
    using le by simp
  with loop b2 c1 show ?thesis by (simp add: append_json_chars_def)
qed

text \<open>
  C8. On a buffer that satisfies the invariant, \<^verbatim>\<open>append_json_chars\<close> returns; it appends
  exactly the output that the specification asks for (\<open>json_spec\<close>: every well-formed
  UTF-8 sequence copied, an ASCII byte that needs it escaped, NUL and every byte that is
  part of no well-formed sequence replaced by one byte 7F each) and returns the position
  behind the consumed bytes. No appended byte is below 20. What is left unconsumed is
  nothing or a sequence cut short by the end of the input. An input made of well-formed
  sequences is consumed whole, each sequence of two or more bytes copied as it is and
  each ASCII byte in its JSON form; the form of NUL is the byte 7F.
\<close>

theorem append_json_chars_meets_spec:
  "(jbuffer_inv b \<longrightarrow>
      (\<exists>b'. append_json_chars inp b = Some (snd (json_spec inp), b') \<and> jbuffer_inv b'
            \<and> contents b' = contents b @ fst (json_spec inp)))
   \<and> (\<forall>x \<in> set (fst (json_spec inp)). 0x20 \<le> x)
   \<and> snd (json_spec inp) \<le> length inp
   \<and> (drop (snd (json_spec inp)) inp = [] \<or> utf8_cut_short (drop (snd (json_spec inp)) inp))
   \<and> (list_all utf8_seq seqs \<longrightarrow>
        json_spec (concat seqs) =
          (concat (map (\<lambda>s. if length s = 1 then json_escape (hd s) else s) seqs),
           length (concat seqs)))
   \<and> json_escape 0 = [0x7F]"
proof (intro conjI impI ballI)
  assume "jbuffer_inv b"
  then show "\<exists>b'. append_json_chars inp b = Some (snd (json_spec inp), b') \<and> jbuffer_inv b'
            \<and> contents b' = contents b @ fst (json_spec inp)"
    by (rule append_json_chars_returns)
next
  fix x assume "x \<in> set (fst (json_spec inp))"
  then show "0x20 \<le> x" by (rule json_spec_printable)
next
  have "jbuffer_inv (jbuffer_new 1)" by (simp add: jbuffer_new_inv)
  from ajc_loop_spec [OF this, of "[]" inp] show "snd (json_spec inp) \<le> length inp"
    unfolding ajc_ok_def by blast
next
  show "drop (snd (json_spec inp)) inp = [] \<or> utf8_cut_short (drop (snd (json_spec inp)) inp)"
    by (rule json_spec_unconsumed)
next
  assume "list_all utf8_seq seqs"
  then show "json_spec (concat seqs) =
          (concat (map (\<lambda>s. if length s = 1 then json_escape (hd s) else s) seqs),
           length (concat seqs))"
    by (rule json_spec_concat)
next
  show "json_escape 0 = [0x7F]" by (simp add: json_escape_def)
qed

lemma json_spec_example:
  "json_spec example_bytes =
     ([0x41, 0x7F, 0xC3, 0xA9, 0x5C, 0x6E, 0x7F, 0x5C, 0x75, 0x30, 0x30, 0x31, 0x42], 7)"
  by code_simp

theorem append_json_chars_meets_spec_witness:
  "(\<exists>b'. append_json_chars example_bytes (jbuffer_new 4096) = Some (7, b')
         \<and> contents b' = [0x41, 0x7F, 0xC3, 0xA9, 0x5C, 0x6E, 0x7F, 0x5C, 0x75, 0x30, 0x30, 0x31, 0x42])
   \<and> json_spec [0xC3, 0xA9, 0x41, 0xE2, 0x82, 0xAC] = ([0xC3, 0xA9, 0x41, 0xE2, 0x82, 0xAC], 6)"
proof -
  have inv: "jbuffer_inv (jbuffer_new 4096)" by (simp add: jbuffer_new_inv)
  have empty: "contents (jbuffer_new 4096) = []" by (simp add: contents_def jbuffer_new_def)
  have seqs: "list_all utf8_seq [[0xC3, 0xA9], [0x41], [0xE2, 0x82, 0xAC]]"
    by (simp add: lead_of2_def second_of3_def continuation_def)
  have esc: "json_escape 0x41 = [0x41]" by (simp add: json_escape_def)
  note spec = append_json_chars_meets_spec [of "jbuffer_new 4096" example_bytes
      "[[0xC3, 0xA9], [0x41], [0xE2, 0x82, 0xAC]]"]
  from spec inv obtain b' where
    "append_json_chars example_bytes (jbuffer_new 4096) = Some (snd (json_spec example_bytes), b')"
    "contents b' = contents (jbuffer_new 4096) @ fst (json_spec example_bytes)"
    by blast
  then have "\<exists>b'. append_json_chars example_bytes (jbuffer_new 4096) = Some (7, b')
         \<and> contents b' = [0x41, 0x7F, 0xC3, 0xA9, 0x5C, 0x6E, 0x7F, 0x5C, 0x75, 0x30, 0x30, 0x31, 0x42]"
    by (simp add: json_spec_example empty)
  moreover from spec seqs
  have "json_spec [0xC3, 0xA9, 0x41, 0xE2, 0x82, 0xAC] = ([0xC3, 0xA9, 0x41, 0xE2, 0x82, 0xAC], 6)"
    by (simp add: esc)
  ultimately show ?thesis by blast
qed

end
